theory Spec2Isabelle
  imports Main "HOL-Library.AList"
begin

section \<open>Values of the command service\<close>

text \<open>
  The service (\<^verbatim>\<open>Tools/VLMService/vlm.py\<close>) asks a language model for a JSON command,
  parses the answer with \<^verbatim>\<open>json.loads\<close>, checks it with \<^verbatim>\<open>validate_payload\<close> and retries
  with a corrective turn when the answer is unusable.

  Text is a \<^typ>\<open>string\<close> holding the UTF-8 bytes of a Python \<^verbatim>\<open>str\<close>. A parsed value is
  one of the values \<^verbatim>\<open>json.loads\<close> builds. A \<^verbatim>\<open>dict\<close> is an association list in insertion
  order; lookup takes the first entry of a key and assignment replaces it in place, as a
  Python \<^verbatim>\<open>dict\<close> (whose keys are distinct) does.
\<close>

datatype pyfloat = Finite bool nat int | Inf bool | NaN
  \<comment> \<open>sign, mantissa and binary exponent; signed infinity; not-a-number\<close>

datatype json =
    JNull
  | JBool bool
  | JInt int
  | JFloat pyfloat
  | JStr string
  | JArr "json list"
  | JObj "(string \<times> json) list"

type_synonym dict = "(string \<times> json) list"

datatype py_error = TypeError | ValueError | OverflowError | KeyError | OtherError string

subsection \<open>Builtins the validator calls\<close>

definition is_zero :: "pyfloat \<Rightarrow> bool" where
  "is_zero f = (case f of Finite s m e \<Rightarrow> m = 0 | _ \<Rightarrow> False)"

text \<open>Truth value of an object, as \<^verbatim>\<open>not v\<close> tests it.\<close>

fun truthy :: "json \<Rightarrow> bool" where
  "truthy JNull = False"
| "truthy (JBool b) = b"
| "truthy (JInt n) = (n \<noteq> 0)"
| "truthy (JFloat f) = (\<not> is_zero f)"
| "truthy (JStr s) = (s \<noteq> [])"
| "truthy (JArr xs) = (xs \<noteq> [])"
| "truthy (JObj d) = (d \<noteq> [])"

text \<open>\<^verbatim>\<open>isinstance(v, str)\<close>.\<close>

fun is_str :: "json \<Rightarrow> bool" where
  "is_str (JStr s) = True"
| "is_str v = False"

text \<open>\<^verbatim>\<open>d.get(k)\<close>: the value, or \<^verbatim>\<open>None\<close> for a missing key.\<close>

definition dict_get :: "dict \<Rightarrow> string \<Rightarrow> json" where
  "dict_get d k = (case map_of d k of None \<Rightarrow> JNull | Some v \<Rightarrow> v)"

text \<open>\<^verbatim>\<open>d[k]\<close>: the value, or \<^verbatim>\<open>KeyError\<close> for a missing key.\<close>

definition dict_item :: "dict \<Rightarrow> string \<Rightarrow> py_error + json" where
  "dict_item d k = (case map_of d k of None \<Rightarrow> Inl KeyError | Some v \<Rightarrow> Inr v)"

text \<open>\<^verbatim>\<open>d[k] = v\<close>: replaces the value of \<open>k\<close> where it stands, or appends a new entry.\<close>

definition dict_set :: "dict \<Rightarrow> string \<Rightarrow> json \<Rightarrow> dict" where
  "dict_set d k v = AList.update k v d"

definition dict_keys :: "dict \<Rightarrow> string set" where
  "dict_keys d = fst ` set d"

text \<open>
  \<^verbatim>\<open>str.lower()\<close> on the ASCII letters. Bytes from 128 on are kept: the only characters
  outside ASCII whose lower case contains an ASCII character are U+0130 and U+212A (they
  give \<open>i\<close> and \<open>k\<close>), no registered command holds an \<open>i\<close> or a \<open>k\<close>, and the validator uses
  the lowered name only to look it up and, once found, to write it back.
\<close>

definition is_upper :: "char \<Rightarrow> bool" where
  "is_upper c = (65 \<le> (of_char c :: nat) \<and> (of_char c :: nat) \<le> 90)"

definition lower_char :: "char \<Rightarrow> char" where
  "lower_char c = (if is_upper c then char_of ((of_char c :: nat) + 32) else c)"

definition lower :: "string \<Rightarrow> string" where
  "lower s = map lower_char s"

subsection \<open>Whitespace\<close>

text \<open>
  The UTF-8 encodings of the characters for which \<^verbatim>\<open>str.isspace()\<close> holds: U+0009 to
  U+000D, U+001C to U+0020, U+0085, U+00A0, U+1680, U+2000 to U+200A, U+2028, U+2029,
  U+202F, U+205F and U+3000.
\<close>

definition whitespace :: "string list" where
  "whitespace =
     [[CHR 0x09], [CHR 0x0A], [CHR 0x0B], [CHR 0x0C], [CHR 0x0D],
      [CHR 0x1C], [CHR 0x1D], [CHR 0x1E], [CHR 0x1F], [CHR 0x20],
      [CHR 0xC2, CHR 0x85], [CHR 0xC2, CHR 0xA0],
      [CHR 0xE1, CHR 0x9A, CHR 0x80],
      [CHR 0xE2, CHR 0x80, CHR 0x80], [CHR 0xE2, CHR 0x80, CHR 0x81],
      [CHR 0xE2, CHR 0x80, CHR 0x82], [CHR 0xE2, CHR 0x80, CHR 0x83],
      [CHR 0xE2, CHR 0x80, CHR 0x84], [CHR 0xE2, CHR 0x80, CHR 0x85],
      [CHR 0xE2, CHR 0x80, CHR 0x86], [CHR 0xE2, CHR 0x80, CHR 0x87],
      [CHR 0xE2, CHR 0x80, CHR 0x88], [CHR 0xE2, CHR 0x80, CHR 0x89],
      [CHR 0xE2, CHR 0x80, CHR 0x8A], [CHR 0xE2, CHR 0x80, CHR 0xA8],
      [CHR 0xE2, CHR 0x80, CHR 0xA9], [CHR 0xE2, CHR 0x80, CHR 0xAF],
      [CHR 0xE2, CHR 0x81, CHR 0x9F], [CHR 0xE3, CHR 0x80, CHR 0x80]]"

text \<open>Stripping the characters of a table \<open>ws\<close> from the left end.\<close>

fun lstrip :: "string list \<Rightarrow> string \<Rightarrow> string" where
  "lstrip ws [] = []"
| "lstrip ws (c # cs) =
     (if [c] \<in> set ws then lstrip ws cs
      else if c # take 1 cs \<in> set ws then lstrip ws (drop 1 cs)
      else if c # take 2 cs \<in> set ws then lstrip ws (drop 2 cs)
      else c # cs)"

text \<open>The same from the right end, on the reversed text.\<close>

fun rstrip_rev :: "string list \<Rightarrow> string \<Rightarrow> string" where
  "rstrip_rev ws [] = []"
| "rstrip_rev ws (c # cs) =
     (if [c] \<in> set ws then rstrip_rev ws cs
      else if rev (c # take 1 cs) \<in> set ws then rstrip_rev ws (drop 1 cs)
      else if rev (c # take 2 cs) \<in> set ws then rstrip_rev ws (drop 2 cs)
      else c # cs)"

definition rstrip :: "string list \<Rightarrow> string \<Rightarrow> string" where
  "rstrip ws s = rev (rstrip_rev ws (rev s))"

text \<open>\<^verbatim>\<open>str.strip()\<close>.\<close>

definition strip :: "string \<Rightarrow> string" where
  "strip s = rstrip whitespace (lstrip whitespace s)"

subsection \<open>The conversion \<^verbatim>\<open>float(v)\<close>\<close>

text \<open>
  \<^verbatim>\<open>is_vector\<close> calls \<^verbatim>\<open>float\<close> for its outcome alone and drops the number, so the model
  gives the outcome: \<open>Inr ()\<close> when the conversion returns, \<open>Inl\<close> the exception otherwise.

  A text converts when, after its surrounding whitespace, it reads
  \<^verbatim>\<open>[sign] (floatnumber | "inf" | "infinity" | "nan")\<close> with the letters in any case,
  \<^verbatim>\<open>floatnumber ::= number [exponent]\<close>,
  \<^verbatim>\<open>number ::= [digitpart] "." digitpart | digitpart ["."]\<close>,
  \<^verbatim>\<open>exponent ::= ("e" | "E") ["+" | "-"] digitpart\<close> and
  \<^verbatim>\<open>digitpart ::= digit (["_"] digit)*\<close>.
  The digits are the ASCII digits; the decimal digits of other scripts, which \<^verbatim>\<open>float\<close>
  reads too, are not modelled.
\<close>

definition is_digit :: "char \<Rightarrow> bool" where
  "is_digit c = (48 \<le> (of_char c :: nat) \<and> (of_char c :: nat) \<le> 57)"

text \<open>After a first digit: the rest of the text behind \<^verbatim>\<open>(["_"] digit)*\<close>.\<close>

fun digits_rest :: "string \<Rightarrow> string" where
  "digits_rest [] = []"
| "digits_rest [c] = (if is_digit c then [] else [c])"
| "digits_rest (c # d # ds) =
     (if is_digit c then digits_rest (d # ds)
      else if c = CHR ''_'' \<and> is_digit d then digits_rest ds
      else c # d # ds)"

definition digitpart :: "string \<Rightarrow> string option" where
  "digitpart s = (case s of [] \<Rightarrow> None
     | c # cs \<Rightarrow> if is_digit c then Some (digits_rest cs) else None)"

definition number :: "string \<Rightarrow> string option" where
  "number s = (case digitpart s of
       Some r \<Rightarrow> (case r of
           [] \<Rightarrow> Some r
         | c # r' \<Rightarrow> if c = CHR ''.''
                    then (case digitpart r' of Some r'' \<Rightarrow> Some r'' | None \<Rightarrow> Some r')
                    else Some r)
     | None \<Rightarrow> (case s of
           [] \<Rightarrow> None
         | c # r \<Rightarrow> if c = CHR ''.'' then digitpart r else None))"

definition drop_sign :: "string \<Rightarrow> string" where
  "drop_sign s = (case s of [] \<Rightarrow> []
     | c # cs \<Rightarrow> if c = CHR ''+'' \<or> c = CHR ''-'' then cs else s)"

definition exponent :: "string \<Rightarrow> string option" where
  "exponent s = (case s of [] \<Rightarrow> None
     | c # cs \<Rightarrow> if c = CHR ''e'' \<or> c = CHR ''E'' then digitpart (drop_sign cs) else None)"

definition floatnumber :: "string \<Rightarrow> bool" where
  "floatnumber s = (case number s of None \<Rightarrow> False
     | Some r \<Rightarrow> r = [] \<or> exponent r = Some [])"

definition absfloatvalue :: "string \<Rightarrow> bool" where
  "absfloatvalue s = (floatnumber s \<or> lower s \<in> {''inf'', ''infinity'', ''nan''})"

text \<open>
  \<^verbatim>\<open>float\<close> turns every whitespace character outside ASCII into a blank and then drops
  the C whitespace (U+0009 to U+000D and the blank) at both ends: unlike \<^verbatim>\<open>str.strip()\<close>
  it keeps U+001C to U+001F.
\<close>

definition float_whitespace :: "string list" where
  "float_whitespace =
     filter (\<lambda>w. w \<notin> {[CHR 0x1C], [CHR 0x1D], [CHR 0x1E], [CHR 0x1F]}) whitespace"

definition float_strip :: "string \<Rightarrow> string" where
  "float_strip s = rstrip float_whitespace (lstrip float_whitespace s)"

definition float_text :: "string \<Rightarrow> bool" where
  "float_text s = absfloatvalue (drop_sign (float_strip s))"

text \<open>
  An \<^verbatim>\<open>int\<close> converts when it rounds to a double: the largest double is
  \<open>2 ^ 1024 - 2 ^ 971\<close>, and from \<open>2 ^ 1024 - 2 ^ 970\<close> on the rounding (to nearest, ties to
  even) leaves the range and \<^verbatim>\<open>float\<close> raises \<^verbatim>\<open>OverflowError\<close>.
\<close>

definition int_fits_double :: "int \<Rightarrow> bool" where
  "int_fits_double n = (\<bar>n\<bar> < 2 ^ 1024 - 2 ^ 970)"

fun py_float :: "json \<Rightarrow> py_error + unit" where
  "py_float JNull = Inl TypeError"
| "py_float (JBool b) = Inr ()"
| "py_float (JInt n) = (if int_fits_double n then Inr () else Inl OverflowError)"
| "py_float (JFloat f) = Inr ()"
| "py_float (JStr s) = (if float_text s then Inr () else Inl ValueError)"
| "py_float (JArr xs) = Inl TypeError"
| "py_float (JObj d) = Inl TypeError"

section \<open>The schema registry and the validator\<close>

definition ALLOWED_COMMANDS :: "string set" where
  "ALLOWED_COMMANDS = {''spawn_object'', ''delete_object'', ''translate_mesh'', ''rotate_mesh''}"

text \<open>\<^verbatim>\<open>float(value[k])\<close>: the item lookup, then the conversion.\<close>

definition float_item :: "dict \<Rightarrow> string \<Rightarrow> py_error + unit" where
  "float_item d k = (case dict_item d k of Inl e \<Rightarrow> Inl e | Inr v \<Rightarrow> py_float v)"

text \<open>
  The \<^verbatim>\<open>try\<close> block of \<^verbatim>\<open>is_vector\<close>: the three conversions in turn, stopping at the first
  exception.
\<close>

definition float_xyz :: "dict \<Rightarrow> py_error + unit" where
  "float_xyz d =
     (case float_item d ''x'' of Inl e \<Rightarrow> Inl e
      | Inr _ \<Rightarrow> (case float_item d ''y'' of Inl e \<Rightarrow> Inl e
      | Inr _ \<Rightarrow> float_item d ''z''))"

text \<open>
  \<^verbatim>\<open>is_vector\<close>. The handler \<^verbatim>\<open>except (TypeError, ValueError)\<close> turns these two into
  \<^verbatim>\<open>False\<close>; any other exception leaves the function.
\<close>

definition is_vector :: "json \<Rightarrow> py_error + bool" where
  "is_vector val = (case val of
       JObj d \<Rightarrow>
         if \<not> {''x'', ''y'', ''z''} \<subseteq> dict_keys d then Inr False
         else (case float_xyz d of
                 Inr _ \<Rightarrow> Inr True
               | Inl e \<Rightarrow> if e = TypeError \<or> e = ValueError then Inr False else Inl e)
     | _ \<Rightarrow> Inr False)"

text \<open>
  The required-field check of a registered command, on the payload with its command
  already written back: \<open>Inr None\<close> when the fields are there, \<open>Inr (Some msg)\<close> with the
  diagnostic when not, \<open>Inl\<close> an exception of \<^verbatim>\<open>is_vector\<close>.
\<close>

definition check_fields :: "string \<Rightarrow> dict \<Rightarrow> py_error + string option" where
  "check_fields command_lower payload =
     (if command_lower = ''spawn_object'' then
        (if \<not> truthy (dict_get payload ''primitive_type'')
         then Inr (Some ''spawn_object requires 'primitive_type'.'') else Inr None)
      else if command_lower = ''delete_object'' then
        (if \<not> truthy (dict_get payload ''object_name'')
         then Inr (Some ''delete_object requires 'object_name'.'') else Inr None)
      else if command_lower = ''translate_mesh'' then
        (case is_vector (dict_get payload ''offset'') of
           Inl e \<Rightarrow> Inl e
         | Inr True \<Rightarrow> Inr None
         | Inr False \<Rightarrow>
             (case is_vector (dict_get payload ''position'') of
                Inl e \<Rightarrow> Inl e
              | Inr True \<Rightarrow> Inr None
              | Inr False \<Rightarrow> Inr (Some ''translate_mesh requires 'offset' or 'position' vector.'')))
      else if command_lower = ''rotate_mesh'' then
        (case is_vector (dict_get payload ''rotation'') of
           Inl e \<Rightarrow> Inl e
         | Inr True \<Rightarrow> Inr None
         | Inr False \<Rightarrow> Inr (Some ''rotate_mesh requires 'rotation' vector.''))
      else Inr None)"

text \<open>
  \<^verbatim>\<open>validate_payload\<close>. The payload is mutated in place, so the model returns it first;
  the second component is the returned pair \<^verbatim>\<open>(valid, diagnostic)\<close>, or the exception
  that left the function.
\<close>

definition validate_payload :: "json \<Rightarrow> json \<times> (py_error + bool \<times> string option)" where
  "validate_payload payload = (case payload of
       JObj d \<Rightarrow>
         (let command = dict_get d ''command'' in
          if \<not> truthy command \<or> \<not> is_str command
          then (payload, Inr (False, Some ''Missing or invalid 'command' field.''))
          else (case command of
             JStr cmd \<Rightarrow>
               (let command_lower = lower cmd in
                if command_lower \<notin> ALLOWED_COMMANDS
                then (payload, Inr (False,
                        Some (''Command '' @ [CHR 0x27] @ cmd @ [CHR 0x27] @ '' is not in the allowed list.'')))
                else (let d' = dict_set d ''command'' (JStr command_lower) in
                      case check_fields command_lower d' of
                        Inl e \<Rightarrow> (JObj d', Inl e)
                      | Inr (Some msg) \<Rightarrow> (JObj d', Inr (False, Some msg))
                      | Inr None \<Rightarrow> (JObj d', Inr (True, None))))
           | _ \<Rightarrow> (payload, Inr (False, Some ''Missing or invalid 'command' field.''))))
     | _ \<Rightarrow> (payload, Inr (False, Some ''Response must be a JSON object.'')))"

section \<open>The retry orchestrator\<close>

text \<open>
  A conversation turn is a \<^verbatim>\<open>dict\<close> with the keys \<^verbatim>\<open>role\<close> and \<^verbatim>\<open>content\<close> and, on the first
  turn of a request that carries a screenshot, \<^verbatim>\<open>images\<close>.
\<close>

record message =
  role :: string
  content :: string
  images :: "string list option"

text \<open>
  Message lists are mutable objects, and the caller's list and the working copy are two
  of them: a heap holds the lists, a reference is an index into it, and a new object takes
  the next index.
\<close>

type_synonym addr = nat
type_synonym heap = "message list list"

text \<open>\<^verbatim>\<open>deepcopy(xs)\<close>: a new list with the same turns.\<close>

definition deepcopy :: "heap \<Rightarrow> addr \<Rightarrow> heap \<times> addr" where
  "deepcopy h a = (h @ [h ! a], length h)"

text \<open>\<^verbatim>\<open>xs.extend(ms)\<close>: the list at \<open>a\<close> grows in place.\<close>

definition heap_extend :: "heap \<Rightarrow> addr \<Rightarrow> message list \<Rightarrow> heap" where
  "heap_extend h a ms = h[a := h ! a @ ms]"

text \<open>
  The two library calls of an attempt are parameters of the model. \<^verbatim>\<open>ollama.chat\<close>, run
  on the worker pool with a deadline of 30 seconds, gives for the attempt of each number a
  completion text (the \<^verbatim>\<open>response["message"]["content"]\<close> of a response), a timeout
  (\<^verbatim>\<open>FuturesTimeoutError\<close>) or any other exception, with its text. \<^verbatim>\<open>json.loads\<close> gives the
  parsed value, a \<^verbatim>\<open>JSONDecodeError\<close> with its text, or an exception of another class.
  A list index out of the heap does not occur in Python, where a reference is to a live
  object; the one fact that reads the caller's list back asks for such a reference.
\<close>

datatype chat_outcome = Completion string | Timeout | Failed string

datatype loads_outcome = Parsed json | JSONDecodeError string | LoadsRaised py_error

text \<open>
  The returned tuple \<^verbatim>\<open>(payload, raw_output, success, error_message)\<close>.
\<close>

type_synonym result = "json option \<times> string \<times> bool \<times> string option"

text \<open>
  The local variables of \<^verbatim>\<open>request_with_validation\<close>, the heap, and the conversations
  submitted to the model so far, one per completion call.
\<close>

record run_state =
  heap :: heap
  messages :: addr
  last_output :: string
  error_message :: "string option"
  calls :: "message list list"

text \<open>How an iteration of the loop ends.\<close>

datatype flow = Next | Break | Return result | Raise py_error

text \<open>An f-string field: \<^verbatim>\<open>None\<close> prints as its name.\<close>

definition format_opt :: "string option \<Rightarrow> string" where
  "format_opt v = (case v of None \<Rightarrow> ''None'' | Some s \<Rightarrow> s)"

definition em_dash :: string where
  "em_dash = [CHR 0xE2, CHR 0x80, CHR 0x94]"

definition parse_error_turns :: "string \<Rightarrow> string \<Rightarrow> message list" where
  \<open>parse_error_turns llm_output exc =
     [\<lparr>role = ''assistant'', content = llm_output, images = None\<rparr>,
      \<lparr>role = ''user'',
       content =
         ''Your response could not be parsed as JSON ('' @ exc @ ''). '' @
         ''Reply again with JSON only, no code fences or commentary, using one of the allowed commands. '' @
         ''Do not include ellipses or placeholder values'' @ em_dash @
         ''every field must contain an explicit value. '' @
         ''If you cannot resolve the direction from the context, respond with {"command":"unknown","reason":"need clarification"}.'',
       images = None\<rparr>]\<close>

definition validation_error_turns :: "string \<Rightarrow> string option \<Rightarrow> message list" where
  \<open>validation_error_turns llm_output validation_error =
     [\<lparr>role = ''assistant'', content = llm_output, images = None\<rparr>,
      \<lparr>role = ''user'',
       content =
         format_opt validation_error @
         '' Use one of the allowed command names exactly as listed '' @
         ''and include the required fields. Respond with JSON only and avoid ellipses or placeholder tokens. '' @
         ''If the context is insufficient, respond with {"command":"unknown","reason":"need clarification"}.'',
       images = None\<rparr>]\<close>

text \<open>
  The body of the loop, for the attempt of number \<open>attempt\<close>. The conversation of the
  working copy is submitted first; \<^verbatim>\<open>break\<close> follows a timeout or a failed call.
\<close>

definition attempt_body ::
  "(string \<Rightarrow> loads_outcome) \<Rightarrow> (nat \<Rightarrow> chat_outcome) \<Rightarrow> nat \<Rightarrow> run_state \<Rightarrow> flow \<times> run_state" where
  "attempt_body loads chat attempt st =
     (let st = st\<lparr>calls := calls st @ [heap st ! messages st]\<rparr> in
      case chat attempt of
        Timeout \<Rightarrow> (Break, st\<lparr>error_message := Some ''Ollama request failed: timeout''\<rparr>)
      | Failed exc \<Rightarrow> (Break, st\<lparr>error_message := Some (''Ollama request failed: '' @ exc)\<rparr>)
      | Completion text \<Rightarrow>
          (let llm_output = strip text;
               st = st\<lparr>last_output := llm_output\<rparr> in
           case loads llm_output of
             JSONDecodeError exc \<Rightarrow>
               (Next, st\<lparr>error_message := Some (''Model response was not valid JSON: '' @ exc),
                         heap := heap_extend (heap st) (messages st) (parse_error_turns llm_output exc)\<rparr>)
           | LoadsRaised e \<Rightarrow> (Raise e, st)
           | Parsed payload \<Rightarrow>
               (case validate_payload payload of
                  (payload, Inl e) \<Rightarrow> (Raise e, st)
                | (payload, Inr (valid, validation_error)) \<Rightarrow>
                    if valid then (Return (Some payload, llm_output, True, None), st)
                    else (Next,
                          st\<lparr>error_message :=
                                Some (''Invalid command payload: '' @ format_opt validation_error),
                             heap := heap_extend (heap st) (messages st)
                                       (validation_error_turns llm_output validation_error)\<rparr>))))"

text \<open>
  The statement after the loop:
  \<^verbatim>\<open>return None, last_output, False, error_message or "Model response was not valid after retries"\<close>.
\<close>

definition give_up :: "run_state \<Rightarrow> result" where
  "give_up st =
     (None, last_output st, False,
      Some (case error_message st of
              None \<Rightarrow> ''Model response was not valid after retries''
            | Some e \<Rightarrow> if e = [] then ''Model response was not valid after retries'' else e))"

text \<open>\<^verbatim>\<open>for attempt in range(max_attempts)\<close>, over the attempt numbers still to come.\<close>

fun for_attempts ::
  "(string \<Rightarrow> loads_outcome) \<Rightarrow> (nat \<Rightarrow> chat_outcome) \<Rightarrow> nat list \<Rightarrow> run_state
     \<Rightarrow> (py_error + result) \<times> run_state" where
  "for_attempts loads chat [] st = (Inr (give_up st), st)"
| "for_attempts loads chat (attempt # rest) st =
     (case attempt_body loads chat attempt st of
        (Next, st') \<Rightarrow> for_attempts loads chat rest st'
      | (Break, st') \<Rightarrow> (Inr (give_up st'), st')
      | (Return r, st') \<Rightarrow> (Inr r, st')
      | (Raise e, st') \<Rightarrow> (Inl e, st'))"

text \<open>
  \<^verbatim>\<open>request_with_validation\<close>, on the heap \<open>h\<close> with the caller's list at \<open>base_messages\<close>.
  It gives the returned tuple, or the exception that left the function, and the final
  state.
\<close>

definition request_with_validation ::
  "(string \<Rightarrow> loads_outcome) \<Rightarrow> (nat \<Rightarrow> chat_outcome) \<Rightarrow> heap \<Rightarrow> addr \<Rightarrow> int
     \<Rightarrow> (py_error + result) \<times> run_state" where
  "request_with_validation loads chat h base_messages max_attempts =
     (let (h', copy) = deepcopy h base_messages;
          st = \<lparr>heap = h', messages = copy, last_output = [], error_message = None, calls = []\<rparr>
      in for_attempts loads chat [0..<nat max_attempts] st)"

text \<open>The conversation of the working copy.\<close>

definition conversation :: "run_state \<Rightarrow> message list" where
  "conversation st = heap st ! messages st"

section \<open>Notions of the specification\<close>

text \<open>
  Two names differ only in letter case when they have the same length and, place by place,
  the same character or the two cases of one ASCII letter.
\<close>

definition same_letter :: "char \<Rightarrow> char \<Rightarrow> bool" where
  "same_letter a b =
     (a = b \<or> (is_upper a \<and> (of_char b :: nat) = of_char a + 32)
            \<or> (is_upper b \<and> (of_char a :: nat) = of_char b + 32))"

definition differs_only_in_case :: "string \<Rightarrow> string \<Rightarrow> bool" where
  "differs_only_in_case a b = list_all2 same_letter a b"

text \<open>
  What an attempt does, read off the outcome of its completion call alone: it ends the run
  with an error, appends two turns and goes on, returns a payload, or lets an exception
  through. The lemma \<open>attempt_body_verdict\<close> shows that the loop body does just that.
\<close>

datatype verdict =
    Fatal string
  | Retry string string "message list"
  | Accept string json
  | Crash string py_error

definition verdict_of :: "(string \<Rightarrow> loads_outcome) \<Rightarrow> chat_outcome \<Rightarrow> verdict" where
  "verdict_of loads outcome = (case outcome of
       Timeout \<Rightarrow> Fatal ''Ollama request failed: timeout''
     | Failed exc \<Rightarrow> Fatal (''Ollama request failed: '' @ exc)
     | Completion text \<Rightarrow>
         (case loads (strip text) of
            JSONDecodeError exc \<Rightarrow>
              Retry (strip text) (''Model response was not valid JSON: '' @ exc)
                (parse_error_turns (strip text) exc)
          | LoadsRaised e \<Rightarrow> Crash (strip text) e
          | Parsed payload \<Rightarrow>
              (case snd (validate_payload payload) of
                 Inl e \<Rightarrow> Crash (strip text) e
               | Inr (True, v) \<Rightarrow> Accept (strip text) (fst (validate_payload payload))
               | Inr (False, v) \<Rightarrow>
                   Retry (strip text) (''Invalid command payload: '' @ format_opt v)
                     (validation_error_turns (strip text) v))))"

text \<open>
  Worked examples: a request of one user turn, four completion texts, and the outcomes of
  \<^verbatim>\<open>json.loads\<close> on these texts (the parsed value, or the message of the
  \<^verbatim>\<open>JSONDecodeError\<close>); a text that is not listed is left to an exception of the model's own.
\<close>

definition example_request :: "message list" where
  "example_request =
     [\<lparr>role = ''user'', content = ''User request: move the cube one meter to the right'',
       images = None\<rparr>]"

definition chatter_text :: string where
  "chatter_text = ''Sure, moving the cube.''"

definition truncated_text :: string where
  \<open>truncated_text = ''{"command":''\<close>

definition translate_text :: string where
  \<open>translate_text = ''{"command":"translate_mesh","offset":{"x":1,"y":0,"z":0}}''\<close>

text \<open>The same answer as the model gives it, with a blank before and a line feed behind.\<close>

definition translate_completion :: string where
  "translate_completion = '' '' @ translate_text @ [CHR 0x0A]"

definition unknown_text :: string where
  \<open>unknown_text = ''{"command":"unknown","reason":"need clarification"}''\<close>

definition translate_payload :: json where
  "translate_payload =
     JObj [(''command'', JStr ''translate_mesh''),
           (''offset'', JObj [(''x'', JInt 1), (''y'', JInt 0), (''z'', JInt 0)])]"

definition unknown_payload :: json where
  "unknown_payload =
     JObj [(''command'', JStr ''unknown''), (''reason'', JStr ''need clarification'')]"

definition example_loads :: "string \<Rightarrow> loads_outcome" where
  "example_loads s =
     (if s = translate_text then Parsed translate_payload
      else if s = unknown_text then Parsed unknown_payload
      else if s = chatter_text then JSONDecodeError ''Expecting value: line 1 column 1 (char 0)''
      else if s = truncated_text then JSONDecodeError ''Expecting value: line 1 column 12 (char 11)''
      else LoadsRaised (OtherError ''not listed''))"

text \<open>
  The completion calls of an example: the listed outcomes in turn, and a refused connection
  for any call after them.
\<close>

definition example_chat :: "chat_outcome list \<Rightarrow> nat \<Rightarrow> chat_outcome" where
  "example_chat outcomes attempt =
     (if attempt < length outcomes then outcomes ! attempt else Failed ''connection refused'')"

section \<open>Dictionaries\<close>

lemma map_of_dict_set_other: "k' \<noteq> k \<Longrightarrow> map_of (dict_set d k v) k' = map_of d k'"
  by (simp add: dict_set_def update_conv')

lemma map_of_dict_set_same: "map_of (dict_set d k v) k = Some v"
  by (simp add: dict_set_def update_conv')

lemma dict_set_order: "map_of d k = Some w \<Longrightarrow> map fst (dict_set d k v) = map fst d"
  by (simp add: dict_set_def update_keys) (metis domI dom_map_of_conv_image_fst)


section \<open>The vector checker\<close>












section \<open>The payload validator\<close>

lemma lower_char_of_upper:
  assumes "is_upper a" and "(of_char b :: nat) = of_char a + 32"
  shows "lower_char a = b \<and> lower_char b = b"
proof -
  have "lower_char a = char_of (of_char b :: nat)"
    using assms by (simp add: lower_char_def)
  moreover have "\<not> is_upper b"
    using assms by (simp add: is_upper_def)
  ultimately show ?thesis
    by (simp add: lower_char_def)
qed

lemma same_letter_lower: "same_letter a b \<Longrightarrow> lower_char a = lower_char b"
  unfolding same_letter_def using lower_char_of_upper by metis

lemma differs_only_in_case_lower: "differs_only_in_case a b \<Longrightarrow> lower a = lower b"
  unfolding differs_only_in_case_def lower_def
  by (induction a b rule: list_all2_induct) (simp_all add: same_letter_lower)

lemma lower_allowed: "r \<in> ALLOWED_COMMANDS \<Longrightarrow> lower r = r"
  unfolding ALLOWED_COMMANDS_def by (elim insertE emptyE; hypsubst; code_simp)

lemma allowed_nonempty: "r \<in> ALLOWED_COMMANDS \<Longrightarrow> r \<noteq> []"
  by (auto simp: ALLOWED_COMMANDS_def)

lemma validate_allowed:
  assumes "map_of d ''command'' = Some (JStr cmd)" and "lower cmd \<in> ALLOWED_COMMANDS"
  shows "validate_payload (JObj d) =
     (JObj (dict_set d ''command'' (JStr (lower cmd))),
      case check_fields (lower cmd) (dict_set d ''command'' (JStr (lower cmd))) of
        Inl e \<Rightarrow> Inl e
      | Inr (Some msg) \<Rightarrow> Inr (False, Some msg)
      | Inr None \<Rightarrow> Inr (True, None))"
proof -
  have "cmd \<noteq> []"
    using assms(2) allowed_nonempty by (auto simp: lower_def)
  then show ?thesis
    using assms
    by (simp add: validate_payload_def dict_get_def Let_def split: sum.splits option.splits)
qed

lemma validate_not_allowed:
  assumes "map_of d ''command'' = Some (JStr cmd)" and "cmd \<noteq> []"
    and "lower cmd \<notin> ALLOWED_COMMANDS"
  shows "validate_payload (JObj d) =
     (JObj d, Inr (False,
        Some (''Command '' @ [CHR 0x27] @ cmd @ [CHR 0x27] @ '' is not in the allowed list.'')))"
  using assms by (simp add: validate_payload_def dict_get_def Let_def)

lemma validate_no_command:
  assumes "\<not> (\<exists>cmd. map_of d ''command'' = Some (JStr cmd) \<and> cmd \<noteq> [])"
  shows "validate_payload (JObj d) =
     (JObj d, Inr (False, Some ''Missing or invalid 'command' field.''))"
proof (cases "dict_get d ''command''")
  case (JStr s)
  then have "s = []"
    using assms by (auto simp: dict_get_def split: option.splits)
  then show ?thesis
    using JStr by (simp add: validate_payload_def)
qed (simp_all add: validate_payload_def)

lemma validate_not_dict:
  assumes "\<forall>d. p \<noteq> JObj d"
  shows "validate_payload p = (p, Inr (False, Some ''Response must be a JSON object.''))"
  using assms by (cases p) (auto simp: validate_payload_def)

lemma validate_spawn_object_example:
  "validate_payload (JObj [(''command'', JStr ''Spawn_Object''), (''primitive_type'', JStr ''Cube'')])
     = (JObj [(''command'', JStr ''spawn_object''), (''primitive_type'', JStr ''Cube'')],
        Inr (True, None))"
  by code_simp

text \<open>
  Claim C5: command names are matched without regard to letter case. When the command of
  a payload differs from a registered name \<open>r\<close> only in letter case, the validator lowers it
  to \<open>r\<close> before the lookup, writes \<open>r\<close> back into the payload, and the verdict is that of
  the required-field check of \<open>r\<close>; \<^verbatim>\<open>{"command":"Spawn_Object","primitive_type":"Cube"}\<close>
  validates, with the command normalized to \<^verbatim>\<open>spawn_object\<close>.
\<close>

theorem validate_payload_case_insensitive:
  "(r \<in> ALLOWED_COMMANDS \<and> differs_only_in_case cmd r \<and> map_of d ''command'' = Some (JStr cmd) \<longrightarrow>
      lower cmd = r
      \<and> fst (validate_payload (JObj d)) = JObj (dict_set d ''command'' (JStr r))
      \<and> map_of (dict_set d ''command'' (JStr r)) ''command'' = Some (JStr r)
      \<and> snd (validate_payload (JObj d)) =
          (case check_fields r (dict_set d ''command'' (JStr r)) of
             Inl e \<Rightarrow> Inl e
           | Inr (Some msg) \<Rightarrow> Inr (False, Some msg)
           | Inr None \<Rightarrow> Inr (True, None)))
   \<and> validate_payload (JObj [(''command'', JStr ''Spawn_Object''), (''primitive_type'', JStr ''Cube'')])
       = (JObj [(''command'', JStr ''spawn_object''), (''primitive_type'', JStr ''Cube'')],
          Inr (True, None))"
proof -
  have "lower cmd = r \<and> fst (validate_payload (JObj d)) = JObj (dict_set d ''command'' (JStr r))
      \<and> map_of (dict_set d ''command'' (JStr r)) ''command'' = Some (JStr r)
      \<and> snd (validate_payload (JObj d)) =
          (case check_fields r (dict_set d ''command'' (JStr r)) of
             Inl e \<Rightarrow> Inl e
           | Inr (Some msg) \<Rightarrow> Inr (False, Some msg)
           | Inr None \<Rightarrow> Inr (True, None))"
    if r: "r \<in> ALLOWED_COMMANDS" and c: "differs_only_in_case cmd r"
      and m: "map_of d ''command'' = Some (JStr cmd)"
  proof -
    have l: "lower cmd = r"
      using differs_only_in_case_lower [OF c] lower_allowed [OF r] by simp
    then have "lower cmd \<in> ALLOWED_COMMANDS"
      using r by simp
    from validate_allowed [OF m this] show ?thesis
      by (simp add: l map_of_dict_set_same)
  qed
  then show ?thesis
    using validate_spawn_object_example by blast
qed

theorem validate_payload_case_insensitive_witness:
  "''translate_mesh'' \<in> ALLOWED_COMMANDS
   \<and> differs_only_in_case ''Translate_MESH'' ''translate_mesh''
   \<and> lower ''Translate_MESH'' = ''translate_mesh''
   \<and> fst (validate_payload (JObj [(''offset'', JNull), (''command'', JStr ''Translate_MESH'')]))
       = JObj [(''offset'', JNull), (''command'', JStr ''translate_mesh'')]
   \<and> snd (validate_payload (JObj [(''offset'', JNull), (''command'', JStr ''Translate_MESH'')]))
       = Inr (False, Some ''translate_mesh requires 'offset' or 'position' vector.'')"
proof -
  have a: "''translate_mesh'' \<in> ALLOWED_COMMANDS"
    by (simp add: ALLOWED_COMMANDS_def)
  have b: "differs_only_in_case ''Translate_MESH'' ''translate_mesh''"
    by code_simp
  have c: "map_of [(''offset'', JNull), (''command'', JStr ''Translate_MESH'')] ''command''
      = Some (JStr ''Translate_MESH'')"
    by simp
  have e: "dict_set [(''offset'', JNull), (''command'', JStr ''Translate_MESH'')] ''command''
      (JStr ''translate_mesh'') = [(''offset'', JNull), (''command'', JStr ''translate_mesh'')]"
    by code_simp
  have f: "check_fields ''translate_mesh'' [(''offset'', JNull), (''command'', JStr ''translate_mesh'')]
      = Inr (Some ''translate_mesh requires 'offset' or 'position' vector.'')"
    by code_simp
  from validate_payload_case_insensitive
    [of "''translate_mesh''" "''Translate_MESH''" "[(''offset'', JNull), (''command'', JStr ''Translate_MESH'')]"]
  show ?thesis
    using a b c by (simp add: e f)
qed

text \<open>
  Claim C8 asks that no exception leave the validator. \<^verbatim>\<open>is_vector\<close> catches
  \<^verbatim>\<open>TypeError\<close> and \<^verbatim>\<open>ValueError\<close> only, and \<^verbatim>\<open>float\<close> raises \<^verbatim>\<open>OverflowError\<close> on an integer
  outside the range of a double: on a \<^verbatim>\<open>rotate_mesh\<close> payload whose rotation has the integer
  \<open>10 ^ 309\<close> for x, \<^verbatim>\<open>validate_payload\<close> is left by that exception, after the command has
  been written back.
\<close>

theorem validate_payload_raises_overflow:
  "validate_payload (JObj [(''command'', JStr ''rotate_mesh''),
      (''rotation'', JObj [(''x'', JInt (10 ^ 309)), (''y'', JInt 0), (''z'', JInt 0)])])
   = (JObj [(''command'', JStr ''rotate_mesh''),
      (''rotation'', JObj [(''x'', JInt (10 ^ 309)), (''y'', JInt 0), (''z'', JInt 0)])],
      Inl OverflowError)"
  by code_simp

theorem validate_payload_raises_overflow_witness:
  "snd (validate_payload (JObj [(''command'', JStr ''rotate_mesh''),
      (''rotation'', JObj [(''x'', JInt (10 ^ 309)), (''y'', JInt 0), (''z'', JInt 0)])]))
   = Inl OverflowError"
  using validate_payload_raises_overflow by simp

text \<open>
  Claim C10: \<^verbatim>\<open>validate_payload\<close> changes at most the value of the key \<^verbatim>\<open>command\<close>. On a
  \<^verbatim>\<open>dict\<close> the payload stays a \<^verbatim>\<open>dict\<close> with the same keys in the same order and the same
  value under every key but \<^verbatim>\<open>command\<close>; when the command is a text, not empty, whose lower
  case is registered, that lower case stands under \<^verbatim>\<open>command\<close> afterwards, whatever the
  verdict; otherwise the payload is unchanged. A value that is not a \<^verbatim>\<open>dict\<close> is unchanged.
\<close>

theorem validate_payload_frame:
  "(\<exists>d'. fst (validate_payload (JObj d)) = JObj d'
        \<and> map fst d' = map fst d
        \<and> (\<forall>k. k \<noteq> ''command'' \<longrightarrow> map_of d' k = map_of d k)
        \<and> (\<forall>cmd. map_of d ''command'' = Some (JStr cmd) \<and> cmd \<noteq> [] \<and> lower cmd \<in> ALLOWED_COMMANDS
              \<longrightarrow> map_of d' ''command'' = Some (JStr (lower cmd)))
        \<and> ((\<nexists>cmd. map_of d ''command'' = Some (JStr cmd) \<and> cmd \<noteq> [] \<and> lower cmd \<in> ALLOWED_COMMANDS)
              \<longrightarrow> d' = d))
   \<and> ((\<forall>d. p \<noteq> JObj d) \<longrightarrow> fst (validate_payload p) = p)"
proof -
  let ?hit = "\<lambda>cmd. map_of d ''command'' = Some (JStr cmd) \<and> cmd \<noteq> [] \<and> lower cmd \<in> ALLOWED_COMMANDS"
  have dict: "\<exists>d'. fst (validate_payload (JObj d)) = JObj d'
        \<and> map fst d' = map fst d
        \<and> (\<forall>k. k \<noteq> ''command'' \<longrightarrow> map_of d' k = map_of d k)
        \<and> (\<forall>cmd. ?hit cmd \<longrightarrow> map_of d' ''command'' = Some (JStr (lower cmd)))
        \<and> ((\<nexists>cmd. ?hit cmd) \<longrightarrow> d' = d)"
  proof (cases "\<exists>cmd. ?hit cmd")
    case True
    then obtain cmd where h: "?hit cmd" by blast
    let ?d' = "dict_set d ''command'' (JStr (lower cmd))"
    have "fst (validate_payload (JObj d)) = JObj ?d'"
      using validate_allowed [of d cmd] h by simp
    moreover have "map fst ?d' = map fst d"
      using dict_set_order h by blast
    moreover have "\<forall>k. k \<noteq> ''command'' \<longrightarrow> map_of ?d' k = map_of d k"
      by (simp add: map_of_dict_set_other)
    moreover have "\<forall>c. ?hit c \<longrightarrow> map_of ?d' ''command'' = Some (JStr (lower c))"
      using h by (auto simp: map_of_dict_set_same)
    ultimately show ?thesis
      using True by blast
  next
    case False
    have "fst (validate_payload (JObj d)) = JObj d"
    proof (cases "\<exists>cmd. map_of d ''command'' = Some (JStr cmd) \<and> cmd \<noteq> []")
      case True
      then obtain cmd where c: "map_of d ''command'' = Some (JStr cmd)" "cmd \<noteq> []" by blast
      then have "lower cmd \<notin> ALLOWED_COMMANDS" using False by blast
      from validate_not_allowed [OF c this] show ?thesis by simp
    next
      case False
      from validate_no_command [OF this] show ?thesis by simp
    qed
    then show ?thesis
      using False by blast
  qed
  have "(\<forall>d. p \<noteq> JObj d) \<longrightarrow> fst (validate_payload p) = p"
    using validate_not_dict by simp
  with dict show ?thesis by blast
qed

theorem validate_payload_frame_witness:
  "map_of [(''object_name'', JStr ''Cube_A''), (''command'', JStr ''SPAWN_object'')] ''command''
     = Some (JStr ''SPAWN_object'')
   \<and> ''SPAWN_object'' \<noteq> [] \<and> lower ''SPAWN_object'' \<in> ALLOWED_COMMANDS
   \<and> snd (validate_payload (JObj [(''object_name'', JStr ''Cube_A''), (''command'', JStr ''SPAWN_object'')]))
       = Inr (False, Some ''spawn_object requires 'primitive_type'.'')
   \<and> (\<exists>d'. fst (validate_payload (JObj [(''object_name'', JStr ''Cube_A''), (''command'', JStr ''SPAWN_object'')]))
          = JObj d'
        \<and> map fst d' = [''object_name'', ''command'']
        \<and> map_of d' ''object_name'' = Some (JStr ''Cube_A'')
        \<and> map_of d' ''command'' = Some (JStr ''spawn_object''))
   \<and> fst (validate_payload (JArr [JInt 1])) = JArr [JInt 1]
   \<and> fst (validate_payload (JObj [(''command'', JStr ''unknown'')])) = JObj [(''command'', JStr ''unknown'')]"
proof -
  have u: "\<nexists>cmd. map_of [(''command'', JStr ''unknown'')] ''command'' = Some (JStr cmd)
      \<and> cmd \<noteq> [] \<and> lower cmd \<in> ALLOWED_COMMANDS"
  proof -
    have "lower ''unknown'' \<notin> ALLOWED_COMMANDS" by code_simp
    then show ?thesis by auto
  qed
  from validate_payload_frame [of "[(''command'', JStr ''unknown'')]" JNull]
  have v: "fst (validate_payload (JObj [(''command'', JStr ''unknown'')])) = JObj [(''command'', JStr ''unknown'')]"
    using u by auto
  let ?d = "[(''object_name'', JStr ''Cube_A''), (''command'', JStr ''SPAWN_object'')]"
  have a: "map_of ?d ''command'' = Some (JStr ''SPAWN_object'')" by simp
  have b: "lower ''SPAWN_object'' = ''spawn_object''" by code_simp
  have c: "''spawn_object'' \<in> ALLOWED_COMMANDS" by (simp add: ALLOWED_COMMANDS_def)
  have s: "snd (validate_payload (JObj ?d)) = Inr (False, Some ''spawn_object requires 'primitive_type'.'')"
    by code_simp
  have n: "\<forall>d. JArr [JInt 1] \<noteq> JObj d" by simp
  from validate_payload_frame [of ?d "JArr [JInt 1]"]
  obtain d' where f: "fst (validate_payload (JObj ?d)) = JObj d'"
    and o: "map fst d' = map fst ?d"
    and k: "\<forall>k. k \<noteq> ''command'' \<longrightarrow> map_of d' k = map_of ?d k"
    and w: "\<forall>cmd. map_of ?d ''command'' = Some (JStr cmd) \<and> cmd \<noteq> [] \<and> lower cmd \<in> ALLOWED_COMMANDS
              \<longrightarrow> map_of d' ''command'' = Some (JStr (lower cmd))"
    and q: "fst (validate_payload (JArr [JInt 1])) = JArr [JInt 1]"
    using n by blast
  have "map_of d' ''object_name'' = Some (JStr ''Cube_A'')"
    using k [rule_format, of "''object_name''"] by simp
  moreover have "map_of d' ''command'' = Some (JStr ''spawn_object'')"
    using w [rule_format, of "''SPAWN_object''"] a b c by simp
  moreover have "map fst d' = [''object_name'', ''command'']"
    using o by simp
  ultimately show ?thesis
    using a b c s q f v by simp
qed

section \<open>The retry loop\<close>

text \<open>The validator returns \<^verbatim>\<open>(True, None)\<close> or \<^verbatim>\<open>False\<close> with a diagnostic.\<close>

lemma validate_payload_verdicts:
  "snd (validate_payload p) = Inr (b, v) \<Longrightarrow> (b \<and> v = None) \<or> (\<not> b \<and> (\<exists>m. v = Some m))"
  by (cases p) (auto simp: validate_payload_def Let_def split: json.splits if_splits sum.splits option.splits)

lemma attempt_body_verdict:
  "attempt_body L C i st =
     (case verdict_of L (C i) of
        Fatal msg \<Rightarrow>
          (Break, st\<lparr>calls := calls st @ [conversation st], error_message := Some msg\<rparr>)
      | Retry out msg turns \<Rightarrow>
          (Next, st\<lparr>calls := calls st @ [conversation st], last_output := out,
                    error_message := Some msg,
                    heap := heap_extend (heap st) (messages st) turns\<rparr>)
      | Accept out p \<Rightarrow>
          (Return (Some p, out, True, None),
           st\<lparr>calls := calls st @ [conversation st], last_output := out\<rparr>)
      | Crash out e \<Rightarrow>
          (Raise e, st\<lparr>calls := calls st @ [conversation st], last_output := out\<rparr>))"
  by (auto simp: attempt_body_def verdict_of_def conversation_def Let_def
      split: chat_outcome.splits loads_outcome.splits sum.splits prod.splits bool.splits)

text \<open>
  One lemma for each way an attempt can end, and the induction over the attempts that they
  give: the facts below about a run are proved by it.
\<close>

lemma verdict_msg_nonempty:
  "verdict_of L c = Fatal msg \<Longrightarrow> msg \<noteq> []"
  "verdict_of L c = Retry out msg turns \<Longrightarrow> msg \<noteq> []"
  by (auto simp: verdict_of_def split: chat_outcome.splits loads_outcome.splits sum.splits bool.splits)

lemma run_end: "n \<le> i \<Longrightarrow> for_attempts L C [i..<n] st = (Inr (give_up st), st)"
  by simp

lemma run_fatal:
  assumes "i < n" and "verdict_of L (C i) = Fatal msg"
  shows "for_attempts L C [i..<n] st =
     (Inr (None, last_output st, False, Some msg),
      st\<lparr>calls := calls st @ [conversation st], error_message := Some msg\<rparr>)"
  using assms verdict_msg_nonempty(1) [OF assms(2)]
  by (simp add: upt_conv_Cons attempt_body_verdict give_up_def)

lemma run_accept:
  assumes "i < n" and "verdict_of L (C i) = Accept out p"
  shows "for_attempts L C [i..<n] st =
     (Inr (Some p, out, True, None),
      st\<lparr>calls := calls st @ [conversation st], last_output := out\<rparr>)"
  using assms by (simp add: upt_conv_Cons attempt_body_verdict)

lemma run_crash:
  assumes "i < n" and "verdict_of L (C i) = Crash out e"
  shows "for_attempts L C [i..<n] st =
     (Inl e, st\<lparr>calls := calls st @ [conversation st], last_output := out\<rparr>)"
  using assms by (simp add: upt_conv_Cons attempt_body_verdict)

lemma run_retry:
  assumes "i < n" and "verdict_of L (C i) = Retry out msg turns"
  shows "for_attempts L C [i..<n] st =
     for_attempts L C [Suc i..<n]
       (st\<lparr>calls := calls st @ [conversation st], last_output := out,
           error_message := Some msg,
           heap := heap_extend (heap st) (messages st) turns\<rparr>)"
  using assms by (simp add: upt_conv_Cons attempt_body_verdict)

lemma run_induct [consumes 1, case_names stop fatal accept crash retry]:
  assumes run: "for_attempts L C [i..<n] st0 = (res, st)"
    and stop: "\<And>i st0. n \<le> i \<Longrightarrow> P i st0 (Inr (give_up st0)) st0"
    and fatal: "\<And>i st0 msg. i < n \<Longrightarrow> verdict_of L (C i) = Fatal msg \<Longrightarrow>
        P i st0 (Inr (None, last_output st0, False, Some msg))
          (st0\<lparr>calls := calls st0 @ [conversation st0], error_message := Some msg\<rparr>)"
    and accept: "\<And>i st0 out p. i < n \<Longrightarrow> verdict_of L (C i) = Accept out p \<Longrightarrow>
        P i st0 (Inr (Some p, out, True, None))
          (st0\<lparr>calls := calls st0 @ [conversation st0], last_output := out\<rparr>)"
    and crash: "\<And>i st0 out e. i < n \<Longrightarrow> verdict_of L (C i) = Crash out e \<Longrightarrow>
        P i st0 (Inl e) (st0\<lparr>calls := calls st0 @ [conversation st0], last_output := out\<rparr>)"
    and retry: "\<And>i st0 out msg turns res st. i < n \<Longrightarrow>
        verdict_of L (C i) = Retry out msg turns \<Longrightarrow>
        for_attempts L C [Suc i..<n]
          (st0\<lparr>calls := calls st0 @ [conversation st0], last_output := out,
               error_message := Some msg,
               heap := heap_extend (heap st0) (messages st0) turns\<rparr>) = (res, st) \<Longrightarrow>
        P (Suc i)
          (st0\<lparr>calls := calls st0 @ [conversation st0], last_output := out,
               error_message := Some msg,
               heap := heap_extend (heap st0) (messages st0) turns\<rparr>) res st \<Longrightarrow>
        P i st0 res st"
  shows "P i st0 res st"
  using run
proof (induction "n - i" arbitrary: i st0)
  case 0
  then have "res = Inr (give_up st0)" and "st = st0" by auto
  then show ?case using stop [of i st0] 0 by simp
next
  case (Suc k)
  then have lt: "i < n" by simp
  show ?case
  proof (cases "verdict_of L (C i)")
    case (Fatal msg)
    with lt Suc.prems fatal [OF lt Fatal, of st0] show ?thesis by (simp add: run_fatal)
  next
    case (Accept out p)
    with lt Suc.prems accept [OF lt Accept, of st0] show ?thesis by (simp add: run_accept)
  next
    case (Crash out e)
    with lt Suc.prems crash [OF lt Crash, of st0] show ?thesis by (simp add: run_crash)
  next
    case (Retry out msg turns)
    let ?st = "st0\<lparr>calls := calls st0 @ [conversation st0], last_output := out,
               error_message := Some msg,
               heap := heap_extend (heap st0) (messages st0) turns\<rparr>"
    have r: "for_attempts L C [Suc i..<n] ?st = (res, st)"
      using lt Retry Suc.prems by (simp add: run_retry)
    have "k = n - Suc i" using Suc.hyps(2) by simp
    from Suc.hyps(1) [OF this r] retry [OF lt Retry r] show ?thesis by simp
  qed
qed

lemma run_frame:
  assumes "for_attempts L C [i..<n] st0 = (res, st)"
  shows "messages st = messages st0 \<and> length (heap st) = length (heap st0)
       \<and> (\<forall>a. a \<noteq> messages st0 \<longrightarrow> heap st ! a = heap st0 ! a)"
  using assms by (induction rule: run_induct) (simp_all add: heap_extend_def)

lemma conversation_after_retry:
  "messages st < length (heap st) \<Longrightarrow>
   conversation (st\<lparr>calls := cs, last_output := out, error_message := em,
                    heap := heap_extend (heap st) (messages st) turns\<rparr>)
     = conversation st @ turns"
  by (simp add: conversation_def heap_extend_def)

lemma run_calls:
  assumes "for_attempts L C [i..<n] st0 = (res, st)"
  shows "\<exists>ext. calls st = calls st0 @ ext \<and> length ext \<le> n - i
           \<and> (i < n \<longrightarrow> ext \<noteq> [] \<and> hd ext = conversation st0)"
  using assms
proof (induction rule: run_induct)
  case (retry i st0 out msg turns res st)
  then obtain ext where "calls st = (calls st0 @ [conversation st0]) @ ext"
    and "length ext \<le> n - Suc i" by auto
  then have "calls st = calls st0 @ (conversation st0 # ext)"
    and "length (conversation st0 # ext) \<le> n - i" using retry.hyps(1) by auto
  then show ?case by (metis list.distinct(1) list.sel(1))
qed (simp_all add: Suc_leI)

lemma run_calls_length:
  assumes "for_attempts L C [i..<n] st0 = (res, st)" and "length (calls st0) = i"
  shows "i \<le> length (calls st)" and "length (calls st) \<le> max i n"
    and "i < n \<Longrightarrow> i < length (calls st)"
    and "i < n \<Longrightarrow> calls st ! i = conversation st0"
    and "take i (calls st) = calls st0"
proof -
  from run_calls [OF assms(1)] obtain ext where e: "calls st = calls st0 @ ext"
    and l: "length ext \<le> n - i" and h: "i < n \<longrightarrow> ext \<noteq> [] \<and> hd ext = conversation st0"
    by blast
  show "i \<le> length (calls st)" using e assms(2) by simp
  show "length (calls st) \<le> max i n" using e l assms(2) by simp
  show "i < length (calls st)" if "i < n" using that e h assms(2) by (cases ext) auto
  show "calls st ! i = conversation st0" if "i < n"
    using that e h assms(2) by (cases ext) (auto simp: nth_append)
  show "take i (calls st) = calls st0" using e assms(2) by simp
qed

lemma run_steps:
  assumes "for_attempts L C [i..<n] st0 = (res, st)"
    and "length (calls st0) = i" and "messages st0 < length (heap st0)"
  shows "\<forall>j. i \<le> j \<and> Suc j < length (calls st) \<longrightarrow>
           (\<exists>out msg turns. verdict_of L (C j) = Retry out msg turns
              \<and> calls st ! Suc j = calls st ! j @ turns)"
  using assms
proof (induction rule: run_induct)
  case (retry i st0 out msg turns res st)
  let ?st = "st0\<lparr>calls := calls st0 @ [conversation st0], last_output := out,
               error_message := Some msg,
               heap := heap_extend (heap st0) (messages st0) turns\<rparr>"
  have len: "length (calls ?st) = Suc i" using retry.prems by simp
  have msgs: "messages ?st < length (heap ?st)" using retry.prems by (simp add: heap_extend_def)
  have ih: "\<forall>j. Suc i \<le> j \<and> Suc j < length (calls st) \<longrightarrow>
           (\<exists>out msg turns. verdict_of L (C j) = Retry out msg turns
              \<and> calls st ! Suc j = calls st ! j @ turns)"
    using retry.IH [OF len msgs] .
  have pre: "take (Suc i) (calls st) = calls ?st"
    using run_calls_length(5) [OF retry.hyps(3) len] .
  have at_i: "calls st ! i = conversation st0"
  proof -
    have "calls st ! i = take (Suc i) (calls st) ! i" by simp
    also have "\<dots> = conversation st0" using pre retry.prems(1) by (simp add: nth_append)
    finally show ?thesis .
  qed
  have first: "calls st ! Suc i = calls st ! i @ turns" if "Suc i < length (calls st)"
  proof -
    have "Suc i < n" using that run_calls_length(2) [OF retry.hyps(3) len] by simp
    then have "calls st ! Suc i = conversation ?st"
      using run_calls_length(4) [OF retry.hyps(3) len] by simp
    also have "\<dots> = conversation st0 @ turns"
      using retry.prems(2) by (rule conversation_after_retry)
    finally show ?thesis using at_i by simp
  qed
  show ?case
  proof (intro allI impI)
    fix j assume j: "i \<le> j \<and> Suc j < length (calls st)"
    show "\<exists>out msg turns. verdict_of L (C j) = Retry out msg turns
              \<and> calls st ! Suc j = calls st ! j @ turns"
    proof (cases "j = i")
      case True
      then show ?thesis using first j retry.hyps(2) by blast
    next
      case False
      then have "Suc i \<le> j" using j by simp
      then show ?thesis using ih j by blast
    qed
  qed
qed auto

lemma run_final:
  assumes "for_attempts L C [i..<n] st0 = (res, st)"
    and "length (calls st0) = i" and "messages st0 < length (heap st0)" and "i < n"
  shows "case verdict_of L (C (length (calls st) - 1)) of
           Fatal msg \<Rightarrow>
             res = Inr (None, last_output st, False, Some msg)
             \<and> conversation st = calls st ! (length (calls st) - 1)
         | Retry out msg turns \<Rightarrow>
             length (calls st) = n \<and> res = Inr (None, out, False, Some msg)
             \<and> conversation st = calls st ! (length (calls st) - 1) @ turns
         | Accept out p \<Rightarrow>
             res = Inr (Some p, out, True, None)
             \<and> conversation st = calls st ! (length (calls st) - 1)
         | Crash out e \<Rightarrow>
             res = Inl e \<and> conversation st = calls st ! (length (calls st) - 1)"
  using assms
proof (induction rule: run_induct)
  case (stop i st0)
  then show ?case by simp
next
  case (fatal i st0 msg)
  then show ?case by (auto simp: conversation_def nth_append)
next
  case (accept i st0 out p)
  then show ?case by (auto simp: conversation_def nth_append)
next
  case (crash i st0 out e)
  then show ?case by (auto simp: conversation_def nth_append)
next
  case (retry i st0 out msg turns res st)
  let ?st = "st0\<lparr>calls := calls st0 @ [conversation st0], last_output := out,
               error_message := Some msg,
               heap := heap_extend (heap st0) (messages st0) turns\<rparr>"
  have len: "length (calls ?st) = Suc i" using retry.prems by simp
  have msgs: "messages ?st < length (heap ?st)" using retry.prems by (simp add: heap_extend_def)
  show ?case
  proof (cases "Suc i < n")
    case True
    from retry.IH [OF len msgs True] show ?thesis .
  next
    case False
    then have n: "n = Suc i" using retry.hyps(1) by simp
    have "for_attempts L C [Suc i..<n] ?st = (Inr (give_up ?st), ?st)"
      using n by simp
    then have r: "res = Inr (give_up ?st)" and s: "st = ?st"
      using retry.hyps(3) by simp_all
    have m: "msg \<noteq> []" using verdict_msg_nonempty(2) [OF retry.hyps(2)] .
    have c: "conversation ?st = conversation st0 @ turns"
      using retry.prems(2) by (rule conversation_after_retry)
    have l: "length (calls st) - 1 = i" using s retry.prems(1) by simp
    have a: "calls st ! i = conversation st0" using s retry.prems(1) by (simp add: nth_append)
    have "res = Inr (None, out, False, Some msg)" using r m by (simp add: give_up_def)
    moreover have "length (calls st) = n" using s n retry.prems(1) by simp
    moreover have "conversation st = calls st ! i @ turns" using c s a by simp
    ultimately show ?thesis using l retry.hyps(2) by simp
  qed
qed

lemma request_unfold:
  "request_with_validation L C h base m =
     for_attempts L C [0..<nat m]
       \<lparr>heap = h @ [h ! base], messages = length h, last_output = [],
        error_message = None, calls = []\<rparr>"
  by (simp add: request_with_validation_def deepcopy_def)

section \<open>Facts about a run\<close>

lemma verdict_Fatal_iff:
  "verdict_of L c = Fatal msg \<longleftrightarrow>
     (c = Timeout \<and> msg = ''Ollama request failed: timeout'')
     \<or> (\<exists>e. c = Failed e \<and> msg = ''Ollama request failed: '' @ e)"
  by (auto simp: verdict_of_def split: chat_outcome.splits loads_outcome.splits sum.splits bool.splits)

lemma verdict_Accept_iff:
  "verdict_of L c = Accept out p \<longleftrightarrow>
     (\<exists>t p0. c = Completion t \<and> out = strip t \<and> L (strip t) = Parsed p0
        \<and> snd (validate_payload p0) = Inr (True, None) \<and> p = fst (validate_payload p0))"
  using validate_payload_verdicts
  by (fastforce simp: verdict_of_def split: chat_outcome.splits loads_outcome.splits sum.splits bool.splits)

lemma verdict_Retry_iff:
  "verdict_of L c = Retry out msg turns \<longleftrightarrow>
     (\<exists>t. c = Completion t \<and> out = strip t \<and>
        ((\<exists>e. L (strip t) = JSONDecodeError e
            \<and> msg = ''Model response was not valid JSON: '' @ e
            \<and> turns = parse_error_turns (strip t) e)
         \<or> (\<exists>p0 m. L (strip t) = Parsed p0
            \<and> snd (validate_payload p0) = Inr (False, Some m)
            \<and> msg = ''Invalid command payload: '' @ m
            \<and> turns = validation_error_turns (strip t) (Some m))))"
proof (cases c)
  case (Completion t)
  show ?thesis
  proof (cases "L (strip t)")
    case (Parsed p0)
    show ?thesis
    proof (cases "snd (validate_payload p0)")
      case (Inl e)
      then show ?thesis using Completion Parsed by (simp add: verdict_of_def)
    next
      case (Inr bv)
      obtain b v where bv: "bv = (b, v)" by (cases bv)
      from validate_payload_verdicts [of p0 b v] Inr bv
      consider "b" "v = None" | m where "\<not> b" "v = Some m" by auto
      then show ?thesis
      proof cases
        case 1
        then show ?thesis using Completion Parsed Inr bv by (simp add: verdict_of_def)
      next
        case 2
        then show ?thesis using Completion Parsed Inr bv
          by (auto simp: verdict_of_def format_opt_def)
      qed
    qed
  qed (use Completion in \<open>auto simp: verdict_of_def\<close>)
qed (simp_all add: verdict_of_def)

lemma request_frame:
  assumes "request_with_validation L C h base m = (res, st)"
  shows "messages st = length h" and "length (heap st) = Suc (length h)"
    and "\<forall>a. a < length h \<longrightarrow> heap st ! a = h ! a"
  using run_frame [OF assms [unfolded request_unfold]] by (simp_all add: nth_append)

lemma request_calls:
  assumes "request_with_validation L C h base m = (res, st)"
  shows "length (calls st) \<le> nat m"
    and "0 < m \<Longrightarrow> calls st \<noteq> []"
    and "0 < m \<Longrightarrow> calls st ! 0 = h ! base"
proof -
  note r = assms [unfolded request_unfold]
  show "length (calls st) \<le> nat m" using run_calls_length(2) [OF r] by simp
  show "calls st \<noteq> []" if "0 < m" using run_calls_length(3) [OF r] that by auto
  show "calls st ! 0 = h ! base" if "0 < m"
    using run_calls_length(4) [OF r] that by (simp add: conversation_def)
qed

lemma request_steps:
  assumes "request_with_validation L C h base m = (res, st)"
    and "Suc j < length (calls st)"
  shows "\<exists>out msg turns. verdict_of L (C j) = Retry out msg turns
           \<and> calls st ! Suc j = calls st ! j @ turns"
  using run_steps [OF assms(1) [unfolded request_unfold]] assms(2) by simp

lemma request_final:
  assumes "request_with_validation L C h base m = (res, st)" and "0 < m"
  shows "case verdict_of L (C (length (calls st) - 1)) of
           Fatal msg \<Rightarrow>
             res = Inr (None, last_output st, False, Some msg)
             \<and> conversation st = calls st ! (length (calls st) - 1)
         | Retry out msg turns \<Rightarrow>
             length (calls st) = nat m \<and> res = Inr (None, out, False, Some msg)
             \<and> conversation st = calls st ! (length (calls st) - 1) @ turns
         | Accept out p \<Rightarrow>
             res = Inr (Some p, out, True, None)
             \<and> conversation st = calls st ! (length (calls st) - 1)
         | Crash out e \<Rightarrow>
             res = Inl e \<and> conversation st = calls st ! (length (calls st) - 1)"
  using run_final [OF assms(1) [unfolded request_unfold]] assms(2) by simp

lemma request_no_attempt:
  assumes "request_with_validation L C h base m = (res, st)" and "m \<le> 0"
  shows "res = Inr (None, [], False, Some ''Model response was not valid after retries'')"
    and "calls st = []" and "conversation st = h ! base"
  using assms by (auto simp: request_unfold give_up_def conversation_def)

lemma request_success_last:
  assumes run: "request_with_validation L C h base m = (res, st)"
    and ok: "res = Inr (payload, raw, True, err)"
  shows "\<exists>t p. calls st \<noteq> [] \<and> C (length (calls st) - 1) = Completion t \<and> raw = strip t
           \<and> L (strip t) = Parsed p \<and> snd (validate_payload p) = Inr (True, None)
           \<and> payload = Some (fst (validate_payload p)) \<and> err = None"
proof -
  have m: "0 < m"
  proof (rule ccontr)
    assume "\<not> 0 < m"
    then have "m \<le> 0" by simp
    from request_no_attempt(1) [OF run this] ok show False by simp
  qed
  have ne: "calls st \<noteq> []" using request_calls(2) [OF run m] .
  note f = request_final [OF run m]
  show ?thesis
  proof (cases "verdict_of L (C (length (calls st) - 1))")
    case (Fatal msg)
    then show ?thesis using f ok by simp
  next
    case (Retry out msg turns)
    then show ?thesis using f ok by simp
  next
    case (Crash out e)
    then show ?thesis using f ok by simp
  next
    case (Accept out p)
    then have r: "res = Inr (Some p, out, True, None)" using f by simp
    from Accept [unfolded verdict_Accept_iff] obtain t p0 where
      "C (length (calls st) - 1) = Completion t" "out = strip t" "L (strip t) = Parsed p0"
      "snd (validate_payload p0) = Inr (True, None)" "p = fst (validate_payload p0)"
      by blast
    then show ?thesis using r ok ne by simp
  qed
qed

lemma request_accepting_attempt:
  assumes run: "request_with_validation L C h base m = (res, st)"
    and i: "i < length (calls st)" and c: "C i = Completion t"
    and p: "L (strip t) = Parsed p" and v: "snd (validate_payload p) = Inr (True, None)"
  shows "res = Inr (Some (fst (validate_payload p)), strip t, True, None)"
    and "length (calls st) = Suc i"
proof -
  have a: "verdict_of L (C i) = Accept (strip t) (fst (validate_payload p))"
    unfolding verdict_Accept_iff using c p v by blast
  have last: "Suc i = length (calls st)"
  proof (rule ccontr)
    assume "Suc i \<noteq> length (calls st)"
    then have "Suc i < length (calls st)" using i by simp
    from request_steps [OF run this] a show False by auto
  qed
  then show "length (calls st) = Suc i" by simp
  have l: "length (calls st) - 1 = i" using last by simp
  have "0 < m" using i request_calls(1) [OF run] by simp
  from request_final [OF run this] a
  show "res = Inr (Some (fst (validate_payload p)), strip t, True, None)"
    unfolding l by simp
qed

lemma request_retry_next:
  assumes run: "request_with_validation L C h base m = (res, st)"
    and i: "i < length (calls st)" and r: "verdict_of L (C i) = Retry out msg turns"
  shows "Suc i < nat m \<Longrightarrow> Suc i < length (calls st)"
    and "Suc i < nat m \<Longrightarrow> calls st ! Suc i = calls st ! i @ turns"
    and "Suc i = nat m \<Longrightarrow> length (calls st) = nat m"
    and "Suc i = nat m \<Longrightarrow> res = Inr (None, out, False, Some msg)"
    and "Suc i = nat m \<Longrightarrow> conversation st = calls st ! i @ turns"
proof -
  have m: "0 < m" using i request_calls(1) [OF run] by simp
  note f = request_final [OF run m]
  have le: "length (calls st) \<le> nat m" using request_calls(1) [OF run] .
  have last: "length (calls st) = nat m" if "Suc i = length (calls st)"
  proof -
    have "length (calls st) - 1 = i" using that by simp
    then show ?thesis using f r by simp
  qed
  show n: "Suc i < length (calls st)" if "Suc i < nat m"
  proof (rule ccontr)
    assume "\<not> Suc i < length (calls st)"
    then have "Suc i = length (calls st)" using i by simp
    from last [OF this] this that show False by simp
  qed
  show "calls st ! Suc i = calls st ! i @ turns" if "Suc i < nat m"
    using request_steps [OF run n [OF that]] r by simp
  assume e: "Suc i = nat m"
  then have l: "length (calls st) - 1 = i" using i le by simp
  show "length (calls st) = nat m" using i le e by simp
  show "res = Inr (None, out, False, Some msg)" using f r unfolding l by simp
  show "conversation st = calls st ! i @ turns" using f r unfolding l by simp
qed

lemma request_first_attempt:
  assumes "request_with_validation L C h base m = (res, st)" and "0 < m"
  shows "0 < length (calls st)" and "calls st ! 0 = h ! base"
  using request_calls(2,3) [OF assms] by simp_all

section \<open>The claims about a run\<close>

text \<open>
  Claim C1: a run returns success exactly when the completion text of one of its attempts
  parses as JSON and passes the validator. On success that attempt is the last one made,
  and the run returns its normalized payload with its stripped text and no error. For the
  completions [a text that is not JSON, a text that parses to a valid payload] and two
  attempts allowed, the run succeeds on the second attempt, and the conversation is the
  caller's with two turns added: the assistant's echo and one corrective user turn.
\<close>

theorem request_success_iff_validated:
  assumes run: "request_with_validation loads chat h base max_attempts = (res, st)"
  shows
    "((\<exists>payload raw err. res = Inr (payload, raw, True, err)) \<longleftrightarrow>
        (\<exists>i t p. i < length (calls st) \<and> chat i = Completion t \<and> loads (strip t) = Parsed p
           \<and> snd (validate_payload p) = Inr (True, None)))
     \<and> (\<forall>payload raw err. res = Inr (payload, raw, True, err) \<longrightarrow>
          (\<exists>t p. calls st \<noteq> [] \<and> chat (length (calls st) - 1) = Completion t \<and> raw = strip t
             \<and> loads (strip t) = Parsed p \<and> snd (validate_payload p) = Inr (True, None)
             \<and> payload = Some (fst (validate_payload p)) \<and> err = None))
     \<and> (max_attempts = 2 \<and> chat 0 = Completion t1 \<and> loads (strip t1) = JSONDecodeError e1
          \<and> chat 1 = Completion t2 \<and> loads (strip t2) = Parsed p2
          \<and> snd (validate_payload p2) = Inr (True, None) \<longrightarrow>
          res = Inr (Some (fst (validate_payload p2)), strip t2, True, None)
          \<and> length (calls st) = 2
          \<and> conversation st = h ! base @ parse_error_turns (strip t1) e1
          \<and> length (filter (\<lambda>m. role m = ''user'') (parse_error_turns (strip t1) e1)) = 1
          \<and> length (filter (\<lambda>m. role m = ''assistant'') (parse_error_turns (strip t1) e1)) = 1
          \<and> length (parse_error_turns (strip t1) e1) = 2)"
proof (intro conjI allI impI)
  show "(\<exists>payload raw err. res = Inr (payload, raw, True, err)) \<longleftrightarrow>
        (\<exists>i t p. i < length (calls st) \<and> chat i = Completion t \<and> loads (strip t) = Parsed p
           \<and> snd (validate_payload p) = Inr (True, None))"
  proof
    assume "\<exists>payload raw err. res = Inr (payload, raw, True, err)"
    then obtain payload raw err where "res = Inr (payload, raw, True, err)" by blast
    from request_success_last [OF run this] obtain t p where
      "calls st \<noteq> []" "chat (length (calls st) - 1) = Completion t"
      "loads (strip t) = Parsed p" "snd (validate_payload p) = Inr (True, None)"
      by blast
    moreover from this have "length (calls st) - 1 < length (calls st)" by simp
    ultimately show "\<exists>i t p. i < length (calls st) \<and> chat i = Completion t
        \<and> loads (strip t) = Parsed p \<and> snd (validate_payload p) = Inr (True, None)"
      by blast
  next
    assume "\<exists>i t p. i < length (calls st) \<and> chat i = Completion t \<and> loads (strip t) = Parsed p
           \<and> snd (validate_payload p) = Inr (True, None)"
    then obtain i t p where "i < length (calls st)" "chat i = Completion t"
      "loads (strip t) = Parsed p" "snd (validate_payload p) = Inr (True, None)"
      by blast
    from request_accepting_attempt(1) [OF run this]
    show "\<exists>payload raw err. res = Inr (payload, raw, True, err)" by blast
  qed
next
  fix payload raw err
  assume "res = Inr (payload, raw, True, err)"
  from request_success_last [OF run this]
  show "\<exists>t p. calls st \<noteq> [] \<and> chat (length (calls st) - 1) = Completion t \<and> raw = strip t
             \<and> loads (strip t) = Parsed p \<and> snd (validate_payload p) = Inr (True, None)
             \<and> payload = Some (fst (validate_payload p)) \<and> err = None" .
next
  assume a: "max_attempts = 2 \<and> chat 0 = Completion t1 \<and> loads (strip t1) = JSONDecodeError e1
          \<and> chat 1 = Completion t2 \<and> loads (strip t2) = Parsed p2
          \<and> snd (validate_payload p2) = Inr (True, None)"
  then have m: "0 < max_attempts" and n: "Suc 0 < nat max_attempts" by simp_all
  have r: "verdict_of loads (chat 0) =
      Retry (strip t1) (''Model response was not valid JSON: '' @ e1)
        (parse_error_turns (strip t1) e1)"
    unfolding verdict_Retry_iff using a by blast
  note first = request_first_attempt [OF run m]
  have one: "Suc 0 < length (calls st)"
    using request_retry_next(1) [OF run first(1) r n] .
  have c1: "calls st ! Suc 0 = h ! base @ parse_error_turns (strip t1) e1"
    using request_retry_next(2) [OF run first(1) r n] first(2) by simp
  have c: "chat (Suc 0) = Completion t2" using a by simp
  have l: "length (calls st) = Suc (Suc 0)"
    using request_accepting_attempt(2) [OF run one c] a by simp
  show "res = Inr (Some (fst (validate_payload p2)), strip t2, True, None)"
    using request_accepting_attempt(1) [OF run one c] a by simp
  show "length (calls st) = 2" using l by simp
  have acc: "verdict_of loads (chat (Suc 0)) = Accept (strip t2) (fst (validate_payload p2))"
    unfolding verdict_Accept_iff using c a by blast
  have "length (calls st) - 1 = Suc 0" using l by simp
  then have "conversation st = calls st ! Suc 0"
    using request_final [OF run m] acc by simp
  then show "conversation st = h ! base @ parse_error_turns (strip t1) e1"
    using c1 by simp
  show "length (filter (\<lambda>m. role m = ''user'') (parse_error_turns (strip t1) e1)) = 1"
    by (simp add: parse_error_turns_def)
  show "length (filter (\<lambda>m. role m = ''assistant'') (parse_error_turns (strip t1) e1)) = 1"
    by (simp add: parse_error_turns_def)
  show "length (parse_error_turns (strip t1) e1) = 2"
    by (simp add: parse_error_turns_def)
qed

theorem request_success_iff_validated_witness:
  "example_chat [Completion chatter_text, Completion translate_completion] 0
     = Completion chatter_text
   \<and> example_loads (strip chatter_text) = JSONDecodeError ''Expecting value: line 1 column 1 (char 0)''
   \<and> example_chat [Completion chatter_text, Completion translate_completion] 1
     = Completion translate_completion
   \<and> example_loads (strip translate_completion) = Parsed translate_payload
   \<and> snd (validate_payload translate_payload) = Inr (True, None)
   \<and> fst (request_with_validation example_loads
          (example_chat [Completion chatter_text, Completion translate_completion])
          [example_request] 0 2)
     = Inr (Some translate_payload, translate_text, True, None)
   \<and> length (calls (snd (request_with_validation example_loads
          (example_chat [Completion chatter_text, Completion translate_completion])
          [example_request] 0 2))) = 2
   \<and> conversation (snd (request_with_validation example_loads
          (example_chat [Completion chatter_text, Completion translate_completion])
          [example_request] 0 2))
     = example_request @ parse_error_turns chatter_text ''Expecting value: line 1 column 1 (char 0)''"
proof -
  let ?chat = "example_chat [Completion chatter_text, Completion translate_completion]"
  let ?run = "request_with_validation example_loads ?chat [example_request] 0 2"
  have c0: "?chat 0 = Completion chatter_text"
    by (simp add: example_chat_def)
  have c1: "?chat 1 = Completion translate_completion"
    by (simp add: example_chat_def)
  have s0: "strip chatter_text = chatter_text"
    by code_simp
  have s1: "strip translate_completion = translate_text"
    by code_simp
  have l0: "example_loads chatter_text = JSONDecodeError ''Expecting value: line 1 column 1 (char 0)''"
    by code_simp
  have l1: "example_loads translate_text = Parsed translate_payload"
    by code_simp
  have v: "validate_payload translate_payload = (translate_payload, Inr (True, None))"
    by code_simp
  have run: "?run = (fst ?run, snd ?run)"
    by simp
  have hyp: "(2::int) = 2 \<and> ?chat 0 = Completion chatter_text
      \<and> example_loads (strip chatter_text) = JSONDecodeError ''Expecting value: line 1 column 1 (char 0)''
      \<and> ?chat 1 = Completion translate_completion
      \<and> example_loads (strip translate_completion) = Parsed translate_payload
      \<and> snd (validate_payload translate_payload) = Inr (True, None)"
    unfolding s0 s1 l0 l1 v using c0 c1 by simp
  note concl = request_success_iff_validated [OF run, THEN conjunct2, THEN conjunct2, THEN mp, OF hyp]
  have "fst ?run = Inr (Some translate_payload, translate_text, True, None)"
    using concl [THEN conjunct1] unfolding s1 v by simp
  moreover have "length (calls (snd ?run)) = 2"
    using concl [THEN conjunct2, THEN conjunct1] .
  moreover have "conversation (snd ?run)
      = example_request @ parse_error_turns chatter_text ''Expecting value: line 1 column 1 (char 0)''"
    using concl [THEN conjunct2, THEN conjunct2, THEN conjunct1] unfolding s0 by simp
  ultimately show ?thesis
    using hyp by blast
qed

lemma request_fatal_attempt:
  assumes run: "request_with_validation L C h base m = (res, st)"
    and i: "i < length (calls st)" and f: "verdict_of L (C i) = Fatal msg"
  shows "length (calls st) = Suc i" and "res = Inr (None, last_output st, False, Some msg)"
proof -
  have last: "Suc i = length (calls st)"
  proof (rule ccontr)
    assume "Suc i \<noteq> length (calls st)"
    then have "Suc i < length (calls st)" using i by simp
    from request_steps [OF run this] f show False by auto
  qed
  then show "length (calls st) = Suc i" by simp
  have l: "length (calls st) - 1 = i" using last by simp
  have "0 < m" using i request_calls(1) [OF run] by simp
  from request_final [OF run this] f
  show "res = Inr (None, last_output st, False, Some msg)"
    unfolding l by simp
qed

lemma request_first_fatal:
  assumes run: "request_with_validation L C h base m = (res, st)"
    and m: "0 < m" and f: "verdict_of L (C 0) = Fatal msg"
  shows "last_output st = []"
proof -
  have "0 < nat m" using m by simp
  then have "for_attempts L C [0..<nat m]
       \<lparr>heap = h @ [h ! base], messages = length h, last_output = [],
        error_message = None, calls = []\<rparr>
     = (Inr (None, [], False, Some msg),
        \<lparr>heap = h @ [h ! base], messages = length h, last_output = [],
         error_message = Some msg, calls = [h ! base]\<rparr>)"
    using f by (simp add: run_fatal conversation_def)
  then show ?thesis using run by (auto simp: request_unfold)
qed

text \<open>
  Claim C2: when the completion call of an attempt that the run makes times out or raises,
  the run ends there: that call is the last one, and the run returns a failure with no
  payload and the error \<^verbatim>\<open>Ollama request failed: ...\<close>. A timeout on the first attempt gives
  the failure after exactly one completion call.
\<close>

theorem transport_failure_is_fatal:
  assumes run: "request_with_validation loads chat h base max_attempts = (res, st)"
  shows
    "(N < length (calls st) \<and> chat N = Timeout \<longrightarrow>
        length (calls st) = Suc N
        \<and> res = Inr (None, last_output st, False, Some ''Ollama request failed: timeout''))
     \<and> (N < length (calls st) \<and> chat N = Failed exc \<longrightarrow>
        length (calls st) = Suc N
        \<and> res = Inr (None, last_output st, False, Some (''Ollama request failed: '' @ exc)))
     \<and> (0 < max_attempts \<and> chat 0 = Timeout \<longrightarrow>
        length (calls st) = 1
        \<and> res = Inr (None, [], False, Some ''Ollama request failed: timeout''))"
proof (intro conjI impI)
  assume a: "N < length (calls st) \<and> chat N = Timeout"
  then have f: "verdict_of loads (chat N) = Fatal ''Ollama request failed: timeout''"
    by (simp add: verdict_Fatal_iff)
  show "length (calls st) = Suc N"
    using request_fatal_attempt(1) [OF run _ f] a by simp
  show "res = Inr (None, last_output st, False, Some ''Ollama request failed: timeout'')"
    using request_fatal_attempt(2) [OF run _ f] a by simp
next
  assume a: "N < length (calls st) \<and> chat N = Failed exc"
  then have f: "verdict_of loads (chat N) = Fatal (''Ollama request failed: '' @ exc)"
    by (simp add: verdict_Fatal_iff)
  show "length (calls st) = Suc N"
    using request_fatal_attempt(1) [OF run _ f] a by simp
  show "res = Inr (None, last_output st, False, Some (''Ollama request failed: '' @ exc))"
    using request_fatal_attempt(2) [OF run _ f] a by simp
next
  assume a: "0 < max_attempts \<and> chat 0 = Timeout"
  then have f: "verdict_of loads (chat 0) = Fatal ''Ollama request failed: timeout''"
    by (simp add: verdict_Fatal_iff)
  have z: "0 < length (calls st)"
    using request_first_attempt(1) [OF run] a by simp
  show "length (calls st) = 1"
    using request_fatal_attempt(1) [OF run z f] by simp
  show "res = Inr (None, [], False, Some ''Ollama request failed: timeout'')"
    using request_fatal_attempt(2) [OF run z f] request_first_fatal [OF run _ f] a by simp
qed

theorem transport_failure_is_fatal_witness:
  "example_chat [Completion chatter_text, Failed ''connection reset''] 1 = Failed ''connection reset''
   \<and> 1 < length (calls (snd (request_with_validation example_loads
          (example_chat [Completion chatter_text, Failed ''connection reset'']) [example_request] 0 5)))
   \<and> length (calls (snd (request_with_validation example_loads
          (example_chat [Completion chatter_text, Failed ''connection reset'']) [example_request] 0 5))) = 2
   \<and> fst (request_with_validation example_loads
          (example_chat [Completion chatter_text, Failed ''connection reset'']) [example_request] 0 5)
       = Inr (None, chatter_text, False, Some ''Ollama request failed: connection reset'')
   \<and> example_chat [Timeout] 0 = Timeout
   \<and> length (calls (snd (request_with_validation example_loads (example_chat [Timeout])
          [example_request] 0 2))) = 1
   \<and> fst (request_with_validation example_loads (example_chat [Timeout]) [example_request] 0 2)
       = Inr (None, [], False, Some ''Ollama request failed: timeout'')"
proof -
  let ?chat = "example_chat [Completion chatter_text, Failed ''connection reset'']"
  let ?run = "request_with_validation example_loads ?chat [example_request] 0 5"
  let ?run2 = "request_with_validation example_loads (example_chat [Timeout]) [example_request] 0 2"
  have c1: "?chat 1 = Failed ''connection reset''"
    by (simp add: example_chat_def)
  have made: "1 < length (calls (snd ?run))"
    by code_simp
  have lo: "last_output (snd ?run) = chatter_text"
    by code_simp
  have run: "?run = (fst ?run, snd ?run)"
    by simp
  note a = transport_failure_is_fatal [OF run, where N = 1 and exc = "''connection reset''",
      THEN conjunct2, THEN conjunct1, THEN mp, OF conjI, OF made c1]
  have c0: "example_chat [Timeout] 0 = Timeout"
    by (simp add: example_chat_def)
  have run2: "?run2 = (fst ?run2, snd ?run2)"
    by simp
  have pos: "(0::int) < 2" by simp
  note b = transport_failure_is_fatal [OF run2, THEN conjunct2, THEN conjunct2, THEN mp,
      OF conjI, OF pos c0]
  show ?thesis
    using a b c1 c0 made unfolding lo by simp
qed






lemma unknown_not_allowed: "''unknown'' \<notin> ALLOWED_COMMANDS"
  by (simp add: ALLOWED_COMMANDS_def)

lemma validate_unknown:
  assumes "map_of d ''command'' = Some (JStr ''unknown'')"
  shows "validate_payload (JObj d) =
     (JObj d, Inr (False, Some ''Command 'unknown' is not in the allowed list.''))"
proof -
  have "lower ''unknown'' = ''unknown''" by code_simp
  then have "lower ''unknown'' \<notin> ALLOWED_COMMANDS" using unknown_not_allowed by simp
  from validate_not_allowed [OF assms _ this] show ?thesis by simp
qed

text \<open>
  Claim C6: \<^verbatim>\<open>unknown\<close> is not a registered command, so a payload whose command is
  \<^verbatim>\<open>unknown\<close> fails validation with the diagnostic
  \<^verbatim>\<open>Command 'unknown' is not in the allowed list.\<close> and is left unchanged. In a run, an attempt
  that answers so is a corrective retry like any other invalid answer: when attempts
  remain, the next one is made on the conversation with the two corrective turns added;
  when it was the last one allowed, the run returns the failure with that diagnostic.
\<close>

theorem unknown_command_consumes_attempt:
  assumes run: "request_with_validation loads chat h base max_attempts = (res, st)"
  shows
    "''unknown'' \<notin> ALLOWED_COMMANDS
     \<and> (map_of d ''command'' = Some (JStr ''unknown'') \<longrightarrow>
          validate_payload (JObj d) =
            (JObj d, Inr (False, Some ''Command 'unknown' is not in the allowed list.'')))
     \<and> (N < length (calls st) \<and> chat N = Completion t \<and> loads (strip t) = Parsed (JObj d)
          \<and> map_of d ''command'' = Some (JStr ''unknown'') \<longrightarrow>
          (Suc N < nat max_attempts \<longrightarrow>
             Suc N < length (calls st)
             \<and> calls st ! Suc N = calls st ! N @
                 validation_error_turns (strip t)
                   (Some ''Command 'unknown' is not in the allowed list.''))
          \<and> (Suc N = nat max_attempts \<longrightarrow>
             length (calls st) = nat max_attempts
             \<and> res = Inr (None, strip t, False,
                 Some ''Invalid command payload: Command 'unknown' is not in the allowed list.'')))"
proof (intro conjI impI)
  show "''unknown'' \<notin> ALLOWED_COMMANDS" by (rule unknown_not_allowed)
  show "validate_payload (JObj d) =
      (JObj d, Inr (False, Some ''Command 'unknown' is not in the allowed list.''))"
    if "map_of d ''command'' = Some (JStr ''unknown'')"
    using that by (rule validate_unknown)
next
  assume a: "N < length (calls st) \<and> chat N = Completion t \<and> loads (strip t) = Parsed (JObj d)
          \<and> map_of d ''command'' = Some (JStr ''unknown'')"
  then have v: "snd (validate_payload (JObj d)) =
      Inr (False, Some ''Command 'unknown' is not in the allowed list.'')"
    using validate_unknown by simp
  have r: "verdict_of loads (chat N) =
      Retry (strip t) (''Invalid command payload: '' @ ''Command 'unknown' is not in the allowed list.'')
        (validation_error_turns (strip t) (Some ''Command 'unknown' is not in the allowed list.''))"
    unfolding verdict_Retry_iff using a v by blast
  have n: "N < length (calls st)" using a by simp
  {
    assume s: "Suc N < nat max_attempts"
    show "Suc N < length (calls st)"
      using request_retry_next(1) [OF run n r s] .
    show "calls st ! Suc N = calls st ! N @
        validation_error_turns (strip t) (Some ''Command 'unknown' is not in the allowed list.'')"
      using request_retry_next(2) [OF run n r s] .
  }
  {
    assume e: "Suc N = nat max_attempts"
    show "length (calls st) = nat max_attempts"
      using request_retry_next(3) [OF run n r e] .
    show "res = Inr (None, strip t, False,
        Some ''Invalid command payload: Command 'unknown' is not in the allowed list.'')"
      using request_retry_next(4) [OF run n r e] by simp
  }
qed

theorem unknown_command_consumes_attempt_witness:
  "map_of [(''command'', JStr ''unknown''), (''reason'', JStr ''need clarification'')] ''command''
     = Some (JStr ''unknown'')
   \<and> example_chat [Completion unknown_text, Completion unknown_text] 0 = Completion unknown_text
   \<and> example_chat [Completion unknown_text, Completion unknown_text] 1 = Completion unknown_text
   \<and> example_loads (strip unknown_text)
     = Parsed (JObj [(''command'', JStr ''unknown''), (''reason'', JStr ''need clarification'')])
   \<and> length (calls (snd (request_with_validation example_loads
        (example_chat [Completion unknown_text, Completion unknown_text]) [example_request] 0 2))) = 2
   \<and> calls (snd (request_with_validation example_loads
        (example_chat [Completion unknown_text, Completion unknown_text]) [example_request] 0 2)) ! 1
     = example_request @ validation_error_turns unknown_text
         (Some ''Command 'unknown' is not in the allowed list.'')
   \<and> fst (request_with_validation example_loads
        (example_chat [Completion unknown_text, Completion unknown_text]) [example_request] 0 2)
     = Inr (None, unknown_text, False,
         Some ''Invalid command payload: Command 'unknown' is not in the allowed list.'')"
proof -
  let ?d = "[(''command'', JStr ''unknown''), (''reason'', JStr ''need clarification'')]"
  let ?chat = "example_chat [Completion unknown_text, Completion unknown_text]"
  let ?run = "request_with_validation example_loads ?chat [example_request] 0 2"
  have m: "map_of ?d ''command'' = Some (JStr ''unknown'')" by simp
  have c0: "?chat 0 = Completion unknown_text" by (simp add: example_chat_def)
  have c1: "?chat 1 = Completion unknown_text" by (simp add: example_chat_def)
  have s: "strip unknown_text = unknown_text" by code_simp
  have l: "example_loads unknown_text = Parsed (JObj ?d)" by code_simp
  have run: "?run = (fst ?run, snd ?run)" by simp
  have made0: "0 < length (calls (snd ?run))"
    using request_first_attempt(1) [OF run] by simp
  have h0: "0 < length (calls (snd ?run)) \<and> ?chat 0 = Completion unknown_text
      \<and> example_loads (strip unknown_text) = Parsed (JObj ?d)
      \<and> map_of ?d ''command'' = Some (JStr ''unknown'')"
    unfolding s l using made0 c0 by simp
  note a = unknown_command_consumes_attempt [OF run, THEN conjunct2, THEN conjunct2, THEN mp,
      OF h0, THEN conjunct1, THEN mp]
  have next1: "Suc 0 < length (calls (snd ?run))"
    and conv1: "calls (snd ?run) ! Suc 0 = calls (snd ?run) ! 0 @
        validation_error_turns (strip unknown_text) (Some ''Command 'unknown' is not in the allowed list.'')"
    using a by simp_all
  have first: "calls (snd ?run) ! 0 = example_request"
    using request_first_attempt(2) [OF run] by simp
  have h1: "1 < length (calls (snd ?run)) \<and> ?chat 1 = Completion unknown_text
      \<and> example_loads (strip unknown_text) = Parsed (JObj ?d)
      \<and> map_of ?d ''command'' = Some (JStr ''unknown'')"
    unfolding s l using next1 c1 by simp
  note b = unknown_command_consumes_attempt [OF run, THEN conjunct2, THEN conjunct2, THEN mp,
      OF h1, THEN conjunct2, THEN mp]
  have len: "length (calls (snd ?run)) = 2"
    and res: "fst ?run = Inr (None, strip unknown_text, False,
         Some ''Invalid command payload: Command 'unknown' is not in the allowed list.'')"
    using b by simp_all
  show ?thesis
    using m c0 c1 len res conv1 first unfolding s l by simp
qed

lemma retry_turns_shape:
  assumes "verdict_of L c = Retry out msg turns"
  shows "\<exists>t u. c = Completion t \<and>
           turns = [\<lparr>role = ''assistant'', content = strip t, images = None\<rparr>,
                    \<lparr>role = ''user'', content = u, images = None\<rparr>]"
  using assms unfolding verdict_Retry_iff
  by (auto simp: parse_error_turns_def validation_error_turns_def)

lemma request_calls_grow:
  assumes run: "request_with_validation L C h base m = (res, st)"
  shows "j < length (calls st) \<Longrightarrow> i \<le> j \<Longrightarrow>
           \<exists>ext. calls st ! j = calls st ! i @ ext \<and> length ext = 2 * (j - i)"
proof (induction j)
  case 0
  then show ?case by simp
next
  case (Suc j)
  show ?case
  proof (cases "i = Suc j")
    case True
    then show ?thesis by simp
  next
    case False
    then have le: "i \<le> j" using Suc.prems by simp
    have "j < length (calls st)" using Suc.prems by simp
    from Suc.IH [OF this le] obtain ext where
      e: "calls st ! j = calls st ! i @ ext" and l: "length ext = 2 * (j - i)" by blast
    from request_steps [OF run Suc.prems(1)] obtain out msg turns where
      r: "verdict_of L (C j) = Retry out msg turns"
      and s: "calls st ! Suc j = calls st ! j @ turns" by blast
    have "length turns = 2" using retry_turns_shape [OF r] by auto
    then have "calls st ! Suc j = calls st ! i @ (ext @ turns)
        \<and> length (ext @ turns) = 2 * (Suc j - i)"
      using e l s le by simp
    then show ?thesis by blast
  qed
qed

lemma request_conversation_end:
  assumes run: "request_with_validation L C h base m = (res, st)"
  shows "(calls st = [] \<and> conversation st = h ! base)
       \<or> (calls st \<noteq> [] \<and> conversation st = last (calls st))
       \<or> (\<exists>t u. calls st \<noteq> [] \<and> C (length (calls st) - 1) = Completion t
            \<and> conversation st = last (calls st) @
                [\<lparr>role = ''assistant'', content = strip t, images = None\<rparr>,
                 \<lparr>role = ''user'', content = u, images = None\<rparr>])"
proof (cases "0 < m")
  case False
  then have "m \<le> 0" by simp
  from request_no_attempt(2,3) [OF run this] show ?thesis by simp
next
  case True
  have ne: "calls st \<noteq> []" using request_calls(2) [OF run True] .
  then have la: "last (calls st) = calls st ! (length (calls st) - 1)"
    by (simp add: last_conv_nth)
  note f = request_final [OF run True]
  show ?thesis
  proof (cases "verdict_of L (C (length (calls st) - 1))")
    case (Fatal msg)
    then show ?thesis using f ne la by simp
  next
    case (Accept out p)
    then show ?thesis using f ne la by simp
  next
    case (Crash out e)
    then show ?thesis using f ne la by simp
  next
    case (Retry out msg turns)
    then have c: "conversation st = last (calls st) @ turns" using f la by simp
    from retry_turns_shape [OF Retry] c ne show ?thesis by blast
  qed
qed

text \<open>
  Claim C7: within a run the conversation only grows, by two turns per corrective retry.
  The conversation submitted to an attempt is the one submitted to the attempt before it
  followed by an assistant turn with that attempt's stripped text and one user turn; the
  attempt of number \<open>j\<close> sees the caller's turns and \<open>2 * j\<close> more; every conversation
  submitted is a prefix of each later one and of the final conversation, which is the last
  one submitted, with one more such pair of turns when the last attempt was a retry too.
\<close>

theorem conversation_append_only:
  assumes run: "request_with_validation loads chat h base max_attempts = (res, st)"
  shows
    "(\<forall>j. Suc j < length (calls st) \<longrightarrow>
        (\<exists>t u. chat j = Completion t \<and>
           calls st ! Suc j = calls st ! j @
             [\<lparr>role = ''assistant'', content = strip t, images = None\<rparr>,
              \<lparr>role = ''user'', content = u, images = None\<rparr>]))
     \<and> (\<forall>j. j < length (calls st) \<longrightarrow>
          length (calls st ! j) = length (h ! base) + 2 * j
          \<and> take (length (h ! base)) (calls st ! j) = h ! base)
     \<and> (\<forall>i j. i \<le> j \<and> j < length (calls st) \<longrightarrow>
          take (length (calls st ! i)) (calls st ! j) = calls st ! i)
     \<and> (\<forall>j. j < length (calls st) \<longrightarrow>
          take (length (calls st ! j)) (conversation st) = calls st ! j)
     \<and> take (length (h ! base)) (conversation st) = h ! base
     \<and> ((calls st = [] \<and> conversation st = h ! base)
        \<or> (calls st \<noteq> [] \<and> conversation st = last (calls st))
        \<or> (\<exists>t u. calls st \<noteq> [] \<and> chat (length (calls st) - 1) = Completion t
             \<and> conversation st = last (calls st) @
                 [\<lparr>role = ''assistant'', content = strip t, images = None\<rparr>,
                  \<lparr>role = ''user'', content = u, images = None\<rparr>]))"
proof -
  have step: "\<forall>j. Suc j < length (calls st) \<longrightarrow>
        (\<exists>t u. chat j = Completion t \<and>
           calls st ! Suc j = calls st ! j @
             [\<lparr>role = ''assistant'', content = strip t, images = None\<rparr>,
              \<lparr>role = ''user'', content = u, images = None\<rparr>])"
  proof (intro allI impI)
    fix j assume "Suc j < length (calls st)"
    from request_steps [OF run this] obtain out msg turns where
      r: "verdict_of loads (chat j) = Retry out msg turns"
      and s: "calls st ! Suc j = calls st ! j @ turns" by blast
    from retry_turns_shape [OF r] s
    show "\<exists>t u. chat j = Completion t \<and>
           calls st ! Suc j = calls st ! j @
             [\<lparr>role = ''assistant'', content = strip t, images = None\<rparr>,
              \<lparr>role = ''user'', content = u, images = None\<rparr>]" by blast
  qed
  have first: "calls st ! 0 = h ! base" if "j < length (calls st)" for j
  proof -
    have "0 < max_attempts" using that request_calls(1) [OF run] by simp
    from request_calls(3) [OF run this] show ?thesis .
  qed
  have pre: "take (length (calls st ! i)) (calls st ! j) = calls st ! i"
    if "i \<le> j" "j < length (calls st)" for i j
    using request_calls_grow [OF run that(2) that(1)] by auto
  have len: "length (calls st ! j) = length (h ! base) + 2 * j
          \<and> take (length (h ! base)) (calls st ! j) = h ! base"
    if "j < length (calls st)" for j
    using request_calls_grow [OF run that, of 0] first [OF that] by auto
  note fin = request_conversation_end [OF run]
  have conv: "take (length (calls st ! j)) (conversation st) = calls st ! j"
    if j: "j < length (calls st)" for j
  proof -
    have ne: "calls st \<noteq> []" using j by auto
    then have la: "last (calls st) = calls st ! (length (calls st) - 1)"
      by (simp add: last_conv_nth)
    have "j \<le> length (calls st) - 1" "length (calls st) - 1 < length (calls st)"
      using j by simp_all
    from request_calls_grow [OF run this(2) this(1)] obtain ext where
      e: "last (calls st) = calls st ! j @ ext" using la by auto
    from fin ne obtain ext' where "conversation st = last (calls st) @ ext'" by auto
    then show ?thesis using e by simp
  qed
  have base: "take (length (h ! base)) (conversation st) = h ! base"
  proof (cases "calls st = []")
    case True
    then show ?thesis using fin by auto
  next
    case False
    then have z: "0 < length (calls st)" by simp
    from conv [OF z] first [OF z] show ?thesis by simp
  qed
  show ?thesis
    using step len pre conv base fin by blast
qed

theorem conversation_append_only_witness:
  "Suc 1 < length (calls (snd (request_with_validation example_loads
      (example_chat [Completion chatter_text, Completion unknown_text, Completion translate_completion])
      [example_request] 0 3)))
   \<and> (\<exists>t u. example_chat [Completion chatter_text, Completion unknown_text, Completion translate_completion] 1
          = Completion t
        \<and> calls (snd (request_with_validation example_loads
            (example_chat [Completion chatter_text, Completion unknown_text, Completion translate_completion])
            [example_request] 0 3)) ! Suc 1
          = calls (snd (request_with_validation example_loads
            (example_chat [Completion chatter_text, Completion unknown_text, Completion translate_completion])
            [example_request] 0 3)) ! 1 @
             [\<lparr>role = ''assistant'', content = strip t, images = None\<rparr>,
              \<lparr>role = ''user'', content = u, images = None\<rparr>])
   \<and> length (calls (snd (request_with_validation example_loads
        (example_chat [Completion chatter_text, Completion unknown_text, Completion translate_completion])
        [example_request] 0 3)) ! 2) = length example_request + 2 * 2
   \<and> take (length (calls (snd (request_with_validation example_loads
        (example_chat [Completion chatter_text, Completion unknown_text, Completion translate_completion])
        [example_request] 0 3)) ! 1))
        (calls (snd (request_with_validation example_loads
        (example_chat [Completion chatter_text, Completion unknown_text, Completion translate_completion])
        [example_request] 0 3)) ! 2)
      = calls (snd (request_with_validation example_loads
        (example_chat [Completion chatter_text, Completion unknown_text, Completion translate_completion])
        [example_request] 0 3)) ! 1
   \<and> take (length example_request) (conversation (snd (request_with_validation example_loads
        (example_chat [Completion chatter_text, Completion unknown_text, Completion translate_completion])
        [example_request] 0 3))) = example_request"
proof -
  let ?chat = "example_chat [Completion chatter_text, Completion unknown_text, Completion translate_completion]"
  let ?run = "request_with_validation example_loads ?chat [example_request] 0 3"
  have run: "?run = (fst ?run, snd ?run)" by simp
  have made: "Suc 1 < length (calls (snd ?run))" by code_simp
  then have two: "2 < length (calls (snd ?run))" by simp
  have le: "(1::nat) \<le> 2 \<and> 2 < length (calls (snd ?run))" using two by simp
  note t = conversation_append_only [OF run]
  have a: "\<exists>t u. ?chat 1 = Completion t
        \<and> calls (snd ?run) ! Suc 1 = calls (snd ?run) ! 1 @
             [\<lparr>role = ''assistant'', content = strip t, images = None\<rparr>,
              \<lparr>role = ''user'', content = u, images = None\<rparr>]"
    using t [THEN conjunct1, rule_format, OF made] .
  have b: "length (calls (snd ?run) ! 2) = length example_request + 2 * 2"
    using t [THEN conjunct2, THEN conjunct1, rule_format, OF two] by simp
  have c: "take (length (calls (snd ?run) ! 1)) (calls (snd ?run) ! 2) = calls (snd ?run) ! 1"
    using t [THEN conjunct2, THEN conjunct2, THEN conjunct1, rule_format, OF le] .
  have d: "take (length example_request) (conversation (snd ?run)) = example_request"
    using t [THEN conjunct2, THEN conjunct2, THEN conjunct2, THEN conjunct2, THEN conjunct1]
    by simp
  show ?thesis
    using made a b c d by blast
qed

text \<open>
  Claim C9: the caller's list is not mutated. The working copy is a new object of the heap,
  the only list the run changes; every object that was there before the call, the list at
  \<open>base_messages\<close> among them, is the same after it, however the attempts end.
\<close>

theorem base_messages_unchanged:
  assumes run: "request_with_validation loads chat h base_messages max_attempts = (res, st)"
  shows
    "(base_messages < length h \<longrightarrow>
        heap st ! base_messages = h ! base_messages \<and> messages st \<noteq> base_messages)
     \<and> take (length h) (heap st) = h
     \<and> length (heap st) = Suc (length h)
     \<and> messages st = length h"
proof -
  note f = request_frame [OF run]
  have "take (length h) (heap st) = h"
  proof (rule nth_equalityI)
    show "length (take (length h) (heap st)) = length h" using f(2) by simp
    show "take (length h) (heap st) ! a = h ! a" if "a < length (take (length h) (heap st))" for a
      using that f(3) by simp
  qed
  then show ?thesis using f by simp
qed

theorem base_messages_unchanged_witness:
  "(0::nat) < length [example_request]
   \<and> heap (snd (request_with_validation example_loads
        (example_chat [Completion chatter_text, Completion unknown_text]) [example_request] 0 2)) ! 0
     = example_request
   \<and> length (conversation (snd (request_with_validation example_loads
        (example_chat [Completion chatter_text, Completion unknown_text]) [example_request] 0 2))) = 5
   \<and> length example_request = 1"
proof -
  let ?run = "request_with_validation example_loads
        (example_chat [Completion chatter_text, Completion unknown_text]) [example_request] 0 2"
  have run: "?run = (fst ?run, snd ?run)" by simp
  have z: "(0::nat) < length [example_request]" by simp
  have a: "heap (snd ?run) ! 0 = example_request"
    using base_messages_unchanged [OF run, THEN conjunct1, THEN mp, OF z] by simp
  have b: "length (conversation (snd ?run)) = 5" by code_simp
  have c: "length example_request = 1" by code_simp
  show ?thesis using z a b c by blast
qed

end
